theory Spec2Isabelle
  imports Complex_Main "HOL-Library.Multiset"
begin

section \<open>Errors raised by the engine\<close>

text \<open>
  Every \<^verbatim>\<open>raise\<close> of the Python source is a value of this type; a fallible
  function returns \<open>error + 'a\<close> with \<open>Inl\<close> for the raised exception.
  \<open>Exception msg\<close> is the plain \<^verbatim>\<open>Exception(msg)\<close> that \<^verbatim>\<open>ndcg\<close> raises
  (the specification calls it \<^verbatim>\<open>InvalidArgument\<close>).
\<close>

datatype error =
    Exception string
  | ValueError string
  | KeyError
  | IndexError
  | ZeroDivisionError
  | FileSystemError

section \<open>Metric library (core/metrics/defaults.py, core/metrics/ndcg.py)\<close>

text \<open>
  Relevance values and metric results are Python numbers; they are modelled as
  \<open>real\<close>, i.e. float arithmetic is idealised as exact arithmetic.
  The keyword arguments the metric functions read are the three fields below;
  \<open>None\<close> means the key is absent from \<^verbatim>\<open>kwargs\<close>.
\<close>

record kwargs =
  limit :: "int option"
  nrel :: "real option"
  alternate :: "bool option"

definition no_kwargs :: kwargs where
  "no_kwargs = \<lparr>limit = None, nrel = None, alternate = None\<rparr>"

text \<open>
  \<^verbatim>\<open>rank = v; if len(rank) < limit: rank += [0] * (limit - len(rank))\<close>.
  \<^verbatim>\<open>rank\<close> is an alias of the caller's list and \<^verbatim>\<open>+=\<close> extends a list in
  place, so the value computed here is the content of the caller's list after
  the statement.
\<close>

definition zero_padding :: "real list \<Rightarrow> int \<Rightarrow> real list" where
  "zero_padding rank lmt =
     (if int (length rank) < lmt
      then rank @ replicate (nat (lmt - int (length rank))) 0
      else rank)"

text \<open>Python's slice \<^verbatim>\<open>xs[:k]\<close>; a negative \<open>k\<close> counts from the end.\<close>

definition slice_upto :: "'a list \<Rightarrow> int \<Rightarrow> 'a list" where
  "slice_upto xs k =
     (if k < 0 then take (nat (int (length xs) + k)) xs else take (nat k) xs)"

text \<open>
  The metric functions of defaults.py return their value together with the
  content of the argument list when they return (the list object is shared with
  the caller).
\<close>

definition recall :: "real list \<Rightarrow> kwargs \<Rightarrow> real \<times> real list" where
  "recall ground_truth_permutated kw =
     (let lmt = (case limit kw of None \<Rightarrow> int (length ground_truth_permutated) | Some l \<Rightarrow> l);
          nrel0 = (case nrel kw of None \<Rightarrow> real (length ground_truth_permutated) | Some n \<Rightarrow> n);
          nrel1 = (if nrel0 > real (length ground_truth_permutated)
                   then real (length ground_truth_permutated) else nrel0);
          rank = zero_padding ground_truth_permutated lmt;
          rec = fold (\<lambda>hit acc. if hit > 0 then acc + hit else acc)
                     (slice_upto rank (lmt + 1)) 0
      in (if nrel1 > 0 then rec / nrel1 else 0, rank))"

definition precision :: "real list \<Rightarrow> kwargs \<Rightarrow> real \<times> real list" where
  "precision ground_truth_permutated kw =
     (let lmt = (case limit kw of None \<Rightarrow> int (length ground_truth_permutated) | Some l \<Rightarrow> l);
          rank = zero_padding ground_truth_permutated lmt;
          prec = fold (\<lambda>hit acc. if hit > 0 then acc + 1 else acc)
                      (slice_upto rank (lmt + 1)) 0
      in (if lmt > 0 then prec / real_of_int lmt else 0, rank))"

definition f1 :: "real list \<Rightarrow> kwargs \<Rightarrow> real \<times> real list" where
  "f1 ground_truth_permutated kw =
     (let (prec, v1) = precision ground_truth_permutated kw;
          (rec, v2) = recall v1 kw
      in (if prec + rec > 0 then 2 * (prec * rec / (prec + rec)) else 0, v2))"

text \<open>
  ndcg.py works on numpy arrays built from its argument (\<^verbatim>\<open>np.asarray\<close>,
  \<^verbatim>\<open>np.pad\<close>, \<^verbatim>\<open>copy\<close>), so these functions are pure.
  The grades are taken as floats. On a list of Python ints numpy computes
  \<^verbatim>\<open>np.power(2, rel)\<close> in \<^verbatim>\<open>int64\<close>, which wraps around for large grades and
  raises \<^verbatim>\<open>ValueError\<close> for negative ones; that integer path is not modelled,
  and nothing below depends on the value of \<open>dcg\<close> on such grades.
\<close>

definition cum_gain :: "real list \<Rightarrow> real" where
  "cum_gain relevance = (if length relevance < 1 then 0 else sum_list relevance)"

definition dcg :: "real list \<Rightarrow> bool \<Rightarrow> real" where
  "dcg relevance alt =
     (if length relevance < 1 then 0
      else let p = length relevance in
        if alt
        then (\<Sum>i\<leftarrow>[0..<p]. (2 powr (relevance ! i) - 1) / log 2 (real (i + 1) + 1))
        else relevance ! 0 + (\<Sum>i\<leftarrow>[1..<p]. relevance ! i / log 2 (real (i + 1))))"

definition idcg :: "real list \<Rightarrow> bool \<Rightarrow> real" where
  "idcg relevance alt =
     (if length relevance < 1 then 0 else dcg (rev (sort relevance)) alt)"

definition ndcg :: "real list \<Rightarrow> int \<Rightarrow> bool \<Rightarrow> error + real" where
  "ndcg relevance nranks alt =
     (if length relevance < 1 then Inr 0
      else if nranks < 1 then Inl (Exception ''nranks < 1'')
      else
        let pad = max 0 (nranks - int (length relevance));
            rel = relevance @ replicate (nat pad) 0;
            rel = take (nat (min nranks (int (length rel)))) rel;
            ideal_dcg = idcg rel alt
        in if ideal_dcg = 0 then Inr 0 else Inr (dcg rel alt / ideal_dcg))"

definition NDCG :: "real list \<Rightarrow> kwargs \<Rightarrow> error + (real \<times> real list)" where
  "NDCG ground_truth_permutated kw =
     (let lmt = (case limit kw of None \<Rightarrow> int (length ground_truth_permutated) | Some l \<Rightarrow> l);
          rank = zero_padding ground_truth_permutated lmt;
          nranks = (case limit kw of None \<Rightarrow> int (length rank) | Some l \<Rightarrow> l);
          alt = (case alternate kw of None \<Rightarrow> True | Some b \<Rightarrow> b)
      in case ndcg rank nranks alt of
           Inl e \<Rightarrow> Inl e
         | Inr x \<Rightarrow> Inr (x, rank))"


text \<open>
  The claim under test for \<^verbatim>\<open>recall\<close>, written from the words of the
  specification (section 4.1): \<open>nrel\<close> defaults to the length of the padded
  vector and is clamped to it; the result is \<open>0\<close> when \<open>nrel = 0\<close>.
  It is compared with \<open>recall\<close> below.
\<close>

definition recall_spec :: "real list \<Rightarrow> kwargs \<Rightarrow> real" where
  "recall_spec v kw =
     (let lmt = (case limit kw of None \<Rightarrow> int (length v) | Some l \<Rightarrow> l);
          padded = (if int (length v) < lmt
                    then v @ replicate (nat (lmt - int (length v))) 0 else v);
          nrel0 = (case nrel kw of None \<Rightarrow> real (length padded) | Some n \<Rightarrow> n);
          nrel1 = min nrel0 (real (length padded));
          numerator = sum_list (filter (\<lambda>hit. hit > 0) (slice_upto padded (lmt + 1)))
      in if nrel1 = 0 then 0 else numerator / nrel1)"

section \<open>Metric specifications (manager/filesystem.py, \<^verbatim>\<open>__metric_handle\<close>)\<close>

text \<open>Loops and comprehensions whose body may raise: the first error ends the loop.\<close>

fun traverse :: "('a \<Rightarrow> error + 'b) \<Rightarrow> 'a list \<Rightarrow> error + 'b list" where
  "traverse f [] = Inr []"
| "traverse f (x # xs) =
     (case f x of
        Inl e \<Rightarrow> Inl e
      | Inr y \<Rightarrow> (case traverse f xs of Inl e \<Rightarrow> Inl e | Inr ys \<Rightarrow> Inr (y # ys)))"

text \<open>\<^verbatim>\<open>d[k]\<close> on a dict raises \<^verbatim>\<open>KeyError\<close> for a missing key.\<close>

definition lookup :: "('k \<rightharpoonup> 'v) \<Rightarrow> 'k \<Rightarrow> error + 'v" where
  "lookup d k = (case d k of None \<Rightarrow> Inl KeyError | Some v \<Rightarrow> Inr v)"

text \<open>\<^verbatim>\<open>s.split(c)\<close> for a one-character separator.\<close>

fun split :: "char \<Rightarrow> string \<Rightarrow> string list" where
  "split c [] = [[]]"
| "split c (x # xs) =
     (if x = c then [] # split c xs
      else (case split c xs of [] \<Rightarrow> [[x]] | p # ps \<Rightarrow> (x # p) # ps))"

text \<open>
  Python's \<^verbatim>\<open>int(s)\<close> on a string: surrounding whitespace is stripped, one sign
  is allowed, then decimal digits, optionally grouped by single underscores;
  anything else raises \<^verbatim>\<open>ValueError\<close>. Only ASCII white space and the digits
  \<open>0\<close> to \<open>9\<close> are modelled (Python also accepts other Unicode white space
  and decimal digits). \<open>str_nat\<close> is \<^verbatim>\<open>str(k)\<close> for \<open>k \<ge> 0\<close>.
\<close>

definition is_digit :: "char \<Rightarrow> bool" where
  "is_digit c = (c \<in> set ''0123456789'')"

definition is_space :: "char \<Rightarrow> bool" where
  "is_space c = (c \<in> {CHR '' '', CHR 0x09, CHR 0x0A, CHR 0x0B, CHR 0x0C, CHR 0x0D})"

definition digit_value :: "char \<Rightarrow> nat" where
  "digit_value c = of_char c - 48"


definition strip :: "string \<Rightarrow> string" where
  "strip s = rev (dropWhile is_space (rev (dropWhile is_space s)))"

fun digits_ok :: "string \<Rightarrow> bool" where
  "digits_ok [] = False"
| "digits_ok [c] = is_digit c"
| "digits_ok (c # d # cs) =
     (is_digit c \<and> (if d = CHR ''_'' then digits_ok cs else digits_ok (d # cs)))"

definition digits_to_nat :: "string \<Rightarrow> nat" where
  "digits_to_nat s = fold (\<lambda>c acc. 10 * acc + digit_value c) (filter (\<lambda>c. c \<noteq> CHR ''_'') s) 0"

definition py_int :: "string \<Rightarrow> error + int" where
  "py_int s =
     (let t = strip s;
          (neg, body) = (case t of
                           c # cs \<Rightarrow> if c = CHR ''-'' then (True, cs)
                                      else if c = CHR ''+'' then (False, cs)
                                      else (False, t)
                         | [] \<Rightarrow> (False, t))
      in if digits_ok body
         then Inr (if neg then - int (digits_to_nat body) else int (digits_to_nat body))
         else Inl (ValueError ''invalid literal for int()''))"



type_synonym metric_fn = "real list \<Rightarrow> kwargs \<Rightarrow> error + (real \<times> real list)"

definition split_limit :: "string \<Rightarrow> error + (string \<times> int option)" where
  "split_limit metric =
     (if CHR ''@'' \<in> set metric
      then (case split (CHR ''@'') metric of
              name # k # _ \<Rightarrow> (case py_int k of Inl e \<Rightarrow> Inl e | Inr n \<Rightarrow> Inr (name, Some n))
            | _ \<Rightarrow> Inl IndexError)
      else Inr (metric, None))"

text \<open>
  \<^verbatim>\<open>get_metric\<close> (atri/core/metrics/__init__.py) is not part of the sources at
  hand; it is a parameter of the model: a lookup from a metric name to a metric
  function that may fail.
\<close>

definition metric_handle ::
  "(string \<Rightarrow> error + metric_fn) \<Rightarrow> string \<Rightarrow> kwargs \<Rightarrow> error + (metric_fn \<times> kwargs)" where
  "metric_handle get_metric metric kw =
     (case split_limit metric of
        Inl e \<Rightarrow> Inl e
      | Inr (metric_name, k) \<Rightarrow>
          let kw' = (case k of
                       None \<Rightarrow> kw
                     | Some n \<Rightarrow> if n \<noteq> 0 then kw\<lparr>limit := Some n\<rparr> else kw)
          in (case get_metric metric_name of
                Inl e \<Rightarrow> Inl e
              | Inr fn \<Rightarrow> Inr (fn, kw')))"


section \<open>Multi-query evaluation (manager/filesystem.py, \<^verbatim>\<open>multiquery_search\<close>)\<close>

definition DEFAULT_METRIC_LIST :: "string list" where
  "DEFAULT_METRIC_LIST =
     [''ndcg@3'', ''ndcg@5'', ''ndcg@10'', ''ndcg@20'', ''precision@3'', ''precision@5'',
      ''precision@10'', ''recall@3'', ''recall@5'', ''recall@10'']"

text \<open>
  A relevance judgment is a set of relevant ids or a dict from ids to grades
  (\<^verbatim>\<open>isinstance(qrel, dict)\<close> tells them apart).
\<close>

datatype 'a qrels = SetJ "'a set" | DictJ "'a \<rightharpoonup> real"

definition len_qrel :: "'a qrels \<Rightarrow> nat" where
  "len_qrel qrel = (case qrel of SetJ s \<Rightarrow> card s | DictJ d \<Rightarrow> card (dom d))"

text \<open>
  \<^verbatim>\<open>truth = (lambda x: qrel[x]) if isinstance(qrel, dict) else (lambda x: int(x in qrel))\<close>
\<close>

definition truth :: "'a qrels \<Rightarrow> 'a \<Rightarrow> error + real" where
  "truth qrel x =
     (case qrel of
        DictJ d \<Rightarrow> lookup d x
      | SetJ s \<Rightarrow> Inr (if x \<in> s then 1 else 0))"

text \<open>
  \<^verbatim>\<open>__extract_hits\<close> stores the hits in a dict keyed by name, so a name keeps
  the position of its first occurrence; \<^verbatim>\<open>response.items()\<close> yields the keys
  in that order.
\<close>

fun response_names :: "'a list \<Rightarrow> 'a list \<Rightarrow> 'a list" where
  "response_names seen [] = []"
| "response_names seen (x # xs) =
     (if x \<in> set seen then response_names seen xs else x # response_names (x # seen) xs)"

definition hits_evaluated :: "'a qrels \<Rightarrow> 'a list \<Rightarrow> error + real list" where
  "hits_evaluated qrel hits = traverse (truth qrel) (response_names [] hits)"

text \<open>
  The dict comprehension \<^verbatim>\<open>{metric: __metric_handle(metric, **kwargs) for metric in metrics}\<close>.
\<close>

fun build_handles ::
  "(string \<Rightarrow> error + metric_fn) \<Rightarrow> kwargs \<Rightarrow> string list \<Rightarrow>
   (string \<rightharpoonup> metric_fn \<times> kwargs) \<Rightarrow> error + (string \<rightharpoonup> metric_fn \<times> kwargs)" where
  "build_handles get_metric kw [] d = Inr d"
| "build_handles get_metric kw (m # ms) d =
     (case metric_handle get_metric m kw of
        Inl e \<Rightarrow> Inl e
      | Inr h \<Rightarrow> build_handles get_metric kw ms (d(m \<mapsto> h)))"

text \<open>
  The inner loop \<^verbatim>\<open>for metric in metrics: ... evaluation[metric] += fn(hits_evaluated, **params)\<close>.
  All metrics of one query receive the same list object, so the list a metric
  leaves behind is the list the next metric is given.
\<close>

fun metrics_loop ::
  "(string \<rightharpoonup> metric_fn \<times> kwargs) \<Rightarrow> nat \<Rightarrow> string list \<Rightarrow> real list \<Rightarrow>
   (string \<rightharpoonup> real) \<Rightarrow> error + ((string \<rightharpoonup> real) \<times> real list)" where
  "metrics_loop handles n [] hits evaluation = Inr (evaluation, hits)"
| "metrics_loop handles n (m # ms) hits evaluation =
     (case lookup handles m of
        Inl e \<Rightarrow> Inl e
      | Inr (fn, params) \<Rightarrow>
          (case lookup evaluation m of
             Inl e \<Rightarrow> Inl e
           | Inr acc \<Rightarrow>
               (case fn hits (params\<lparr>nrel := Some (real n)\<rparr>) of
                  Inl e \<Rightarrow> Inl e
                | Inr (val, hits') \<Rightarrow>
                    metrics_loop handles n ms hits' (evaluation(m \<mapsto> acc + val)))))"

text \<open>
  The loop over the query generator. The search collaborator is a parameter:
  \<open>searcher qry\<close> is the list of hit names in rank order, or \<open>None\<close> when
  indexing or searching raised (re-raised as \<^verbatim>\<open>FileSystemError\<close>).
\<close>

fun query_loop ::
  "('q \<Rightarrow> 'a list option) \<Rightarrow> (string \<rightharpoonup> metric_fn \<times> kwargs) \<Rightarrow> string list \<Rightarrow>
   ('q \<times> 'a qrels) list \<Rightarrow> (string \<rightharpoonup> real) \<times> real \<Rightarrow>
   error + ((string \<rightharpoonup> real) \<times> real)" where
  "query_loop searcher handles metrics [] st = Inr st"
| "query_loop searcher handles metrics ((qry, qrel) # rest) (evaluation, ratio) =
     (case searcher qry of
        None \<Rightarrow> Inl FileSystemError
      | Some hits \<Rightarrow>
          (case hits_evaluated qrel hits of
             Inl e \<Rightarrow> Inl e
           | Inr hv \<Rightarrow>
               (case metrics_loop handles (len_qrel qrel) metrics hv evaluation of
                  Inl e \<Rightarrow> Inl e
                | Inr (evaluation', _) \<Rightarrow>
                    query_loop searcher handles metrics rest (evaluation', ratio + 1))))"

text \<open>The final loop \<^verbatim>\<open>for metric in metrics: evaluation[metric] /= ratio\<close>.\<close>

fun divide_loop :: "string list \<Rightarrow> real \<Rightarrow> (string \<rightharpoonup> real) \<Rightarrow> error + (string \<rightharpoonup> real)" where
  "divide_loop [] ratio evaluation = Inr evaluation"
| "divide_loop (m # ms) ratio evaluation =
     (case lookup evaluation m of
        Inl e \<Rightarrow> Inl e
      | Inr acc \<Rightarrow>
          if ratio = 0 then Inl ZeroDivisionError
          else divide_loop ms ratio (evaluation(m \<mapsto> acc / ratio)))"

text \<open>
  \<open>requested\<close> is the \<^verbatim>\<open>metrics\<close> entry of the keyword arguments
  (\<open>None\<close>: absent); an absent or empty entry selects the default list.
\<close>

definition requested_metrics :: "string list option \<Rightarrow> string list" where
  "requested_metrics requested =
     (case requested of
        None \<Rightarrow> DEFAULT_METRIC_LIST
      | Some ms \<Rightarrow> if ms \<noteq> [] then ms else DEFAULT_METRIC_LIST)"

definition multiquery_search ::
  "('q \<Rightarrow> 'a list option) \<Rightarrow> (string \<Rightarrow> error + metric_fn) \<Rightarrow> string list option \<Rightarrow>
   kwargs \<Rightarrow> ('q \<times> 'a qrels) list \<Rightarrow> error + (string \<rightharpoonup> real)" where
  "multiquery_search searcher get_metric requested kw query_generator =
     (let metrics = requested_metrics requested
      in case build_handles get_metric kw metrics Map.empty of
           Inl e \<Rightarrow> Inl e
         | Inr metrics_handle \<Rightarrow>
             (case query_loop searcher metrics_handle metrics query_generator
                     (fold (\<lambda>m ev. ev(m \<mapsto> 0)) metrics Map.empty, 0) of
                Inl e \<Rightarrow> Inl e
              | Inr (evaluation, ratio) \<Rightarrow> divide_loop metrics ratio evaluation))"

text \<open>
  The values the loop adds for one query, metric by metric: what each metric
  function returns when the metrics are called in order on the one list
  \<^verbatim>\<open>hits_evaluated\<close>, each call receiving the list as the call before left it.
  Only the first of them is the metric of the query's relevance vector; a later
  one is the metric of that vector as padded by the calls before it.
\<close>

fun shared_list_values ::
  "(string \<rightharpoonup> metric_fn \<times> kwargs) \<Rightarrow> nat \<Rightarrow> string list \<Rightarrow> real list \<Rightarrow> error + real list" where
  "shared_list_values handles n [] hits = Inr []"
| "shared_list_values handles n (m # ms) hits =
     (case lookup handles m of
        Inl e \<Rightarrow> Inl e
      | Inr (fn, params) \<Rightarrow>
          (case fn hits (params\<lparr>nrel := Some (real n)\<rparr>) of
             Inl e \<Rightarrow> Inl e
           | Inr (val, hits') \<Rightarrow>
               (case shared_list_values handles n ms hits' of
                  Inl e \<Rightarrow> Inl e
                | Inr vals \<Rightarrow> Inr (val # vals))))"

definition query_shared_values ::
  "('q \<Rightarrow> 'a list option) \<Rightarrow> (string \<rightharpoonup> metric_fn \<times> kwargs) \<Rightarrow> string list \<Rightarrow>
   'q \<times> 'a qrels \<Rightarrow> error + real list" where
  "query_shared_values searcher handles metrics q =
     (case searcher (fst q) of
        None \<Rightarrow> Inl FileSystemError
      | Some hits \<Rightarrow>
          (case hits_evaluated (snd q) hits of
             Inl e \<Rightarrow> Inl e
           | Inr hv \<Rightarrow> shared_list_values handles (len_qrel (snd q)) metrics hv))"


section \<open>Rank aggregation (core/ranking/aggregation.py)\<close>

text \<open>
  Python iterates a \<^verbatim>\<open>set\<close> in an order that depends on hashing. The order is
  a parameter of the model: an \<open>iteration\<close> lists the members of a set, and
  \<open>iterates_on U iter\<close> says that it lists every subset of \<open>U\<close> faithfully
  (each member once). \<open>listing xs\<close> is the iteration that follows a fixed
  list \<open>xs\<close>.
\<close>

type_synonym 'a iteration = "'a set \<Rightarrow> 'a list"

definition iterates_on :: "'a set \<Rightarrow> 'a iteration \<Rightarrow> bool" where
  "iterates_on U iter \<longleftrightarrow> (\<forall>S. S \<subseteq> U \<longrightarrow> distinct (iter S) \<and> set (iter S) = S)"

definition listing :: "'a list \<Rightarrow> 'a iteration" where
  "listing xs S = filter (\<lambda>x. x \<in> S) xs"

text \<open>
  \<open>position xs x\<close> is the 0-based position of the first \<open>x\<close> in \<open>xs\<close>
  (Python's \<^verbatim>\<open>xs.index(x)\<close>); it is used to state results only.
\<close>

definition position :: "'a list \<Rightarrow> 'a \<Rightarrow> nat" where
  "position xs x = length (takeWhile (\<lambda>y. y \<noteq> x) xs)"

definition get_unique_doc_ids :: "'a list list \<Rightarrow> 'a set" where
  "get_unique_doc_ids rankings = fold (\<lambda>rank docs. fold insert rank docs) rankings {}"

definition nth_err :: "'a list \<Rightarrow> nat \<Rightarrow> error + 'a" where
  "nth_err xs i = (if i < length xs then Inr (xs ! i) else Inl IndexError)"

text \<open>
  Assigning a sequence to the row \<^verbatim>\<open>ndranks[i, :]\<close> of width \<open>ndoc\<close>: numpy
  accepts a sequence of that length, repeats a single element, and raises
  \<^verbatim>\<open>ValueError\<close> otherwise.
\<close>

definition assign_row :: "nat \<Rightarrow> nat list \<Rightarrow> error + nat list" where
  "assign_row ndoc row =
     (if length row = ndoc then Inr row
      else if length row = 1 then Inr (replicate ndoc (row ! 0))
      else Inl (ValueError ''could not broadcast input array''))"

subsection \<open>Borda count\<close>

text \<open>
  Document ids are the positive integers handed out by
  \<^verbatim>\<open>enumerate(docs, start=1)\<close>; they are modelled as \<open>nat\<close>, so the test
  \<^verbatim>\<open>rank[i] - 1 < 0\<close> reads \<open>rank ! i < 1\<close>. Scores are \<^verbatim>\<open>int64\<close> sums
  bounded by \<open>nrank * ndoc\<close> and are modelled as \<open>int\<close>.
\<close>

fun rank_score_loop ::
  "nat \<Rightarrow> nat list \<Rightarrow> nat list \<Rightarrow> bool \<times> int list \<Rightarrow> error + (bool \<times> int list)" where
  "rank_score_loop n_rows rank [] st = Inr st"
| "rank_score_loop n_rows rank (i # todo) (err, borda_rank) =
     (case nth_err rank i of
        Inl e \<Rightarrow> Inl e
      | Inr r \<Rightarrow>
          if r < 1 then rank_score_loop n_rows rank todo (True, borda_rank)
          else if r - 1 < length borda_rank
          then rank_score_loop n_rows rank todo
                 (err, borda_rank[r - 1 := int n_rows - (int i + 1)])
          else Inl IndexError)"

definition rank_score :: "nat \<Rightarrow> nat list \<Rightarrow> error + int list" where
  "rank_score n_rows rank =
     (case rank_score_loop n_rows rank [0..<n_rows] (False, replicate n_rows 0) of
        Inl e \<Rightarrow> Inl e
      | Inr (err, borda_rank) \<Rightarrow>
          if err then Inl (ValueError ''Doc ids must be higher than 1'')
          else Inr borda_rank)"

text \<open>
  \<^verbatim>\<open>data.argsort()\<close>: the indices that sort \<open>data\<close> ascending. numpy is not
  part of the sources, and the call uses the default \<^verbatim>\<open>kind\<close>, which numpy
  documents as not stable: the order of the indices of equal values is left
  open and depends on the length of the array and on the build of numpy. The
  sort is therefore a parameter \<open>argsort\<close> of \<open>fit\<close> and of
  \<open>BordaCount_rank_by_id\<close>, and \<open>sorts_ascending\<close> is all that is known about it:
  it returns a permutation of the indices along which the values are ascending.
  \<open>argsort_stable\<close> (equal values keep their index order) and
  \<open>argsort_ties_reversed\<close> (equal values in descending index order) are two
  sorts that meet the contract; they are used to run the code on concrete inputs.
\<close>

definition sorts_ascending :: "(int list \<Rightarrow> nat list) \<Rightarrow> bool" where
  "sorts_ascending argsort \<longleftrightarrow>
     (\<forall>data. mset (argsort data) = mset [0..<length data]
             \<and> sorted (map (\<lambda>i. data ! i) (argsort data)))"

definition argsort_stable :: "int list \<Rightarrow> nat list" where
  "argsort_stable data = sort_key (\<lambda>i. data ! i) [0..<length data]"

definition argsort_ties_reversed :: "int list \<Rightarrow> nat list" where
  "argsort_ties_reversed data = rev (sort_key (\<lambda>i. - (data ! i)) [0..<length data])"

definition fit ::
  "(int list \<Rightarrow> nat list) \<Rightarrow> nat \<Rightarrow> nat \<Rightarrow> nat list list \<Rightarrow> error + (nat list \<times> int list)" where
  "fit argsort nranks ndocs rankings =
     (case traverse (\<lambda>i. case nth_err rankings i of
                            Inl e \<Rightarrow> Inl e
                          | Inr row \<Rightarrow> rank_score ndocs row) [0..<nranks] of
        Inl e \<Rightarrow> Inl e
      | Inr scores \<Rightarrow>
          let data = map (\<lambda>j. \<Sum>row\<leftarrow>scores. row ! j) [0..<ndocs]
          in Inr (rev (map (\<lambda>i. i + 1) (argsort data)), data))"

definition BordaCount_rank_by_id ::
  "(int list \<Rightarrow> nat list) \<Rightarrow> 'a iteration \<Rightarrow> nat iteration \<Rightarrow> 'a list list
     \<Rightarrow> error + (real \<times> 'a) list" where
  "BordaCount_rank_by_id argsort iter_docs iter_ids rankings =
     (let docs = get_unique_doc_ids rankings;
          nrank = length rankings;
          ndoc = card docs
      in if length rankings > 0
         then
           let numbered = enumerate 1 (iter_docs docs);
               map_doc_ids = map_of (map (\<lambda>(i, docid). (docid, i)) numbered);
               map_ids_doc = map_of numbered;
               set_doc_ids = set (map fst numbered)
           in case traverse
                     (\<lambda>rank. case traverse (lookup map_doc_ids) rank of
                                Inl e \<Rightarrow> Inl e
                              | Inr rank_ids \<Rightarrow>
                                  assign_row ndoc
                                    (rank_ids @ iter_ids (set_doc_ids - set rank_ids)))
                     rankings of
                Inl e \<Rightarrow> Inl e
              | Inr ndranks \<Rightarrow>
                  (case fit argsort nrank ndoc ndranks of
                     Inl e \<Rightarrow> Inl e
                   | Inr (idx, scores) \<Rightarrow>
                       traverse
                         (\<lambda>i. case nth_err idx i of
                                 Inl e \<Rightarrow> Inl e
                               | Inr d \<Rightarrow>
                                   (case nth_err scores (d - 1) of
                                      Inl e \<Rightarrow> Inl e
                                    | Inr sc \<Rightarrow>
                                        (case lookup map_ids_doc d of
                                           Inl e \<Rightarrow> Inl e
                                         | Inr docid \<Rightarrow> Inr (real_of_int sc, docid))))
                         [0..<ndoc])
         else Inl (ValueError ''You must provide some ranking''))"

text \<open>
  Names for stating what Borda count computes. \<open>doc_number order d\<close> is the
  1-based number that \<^verbatim>\<open>enumerate(docs, start=1)\<close> gives to document \<open>d\<close>
  when the set is iterated in the order \<open>order\<close>; \<open>borda_rows\<close> are the rows of
  \<^verbatim>\<open>ndranks\<close> (each ranking as numbers, followed by its padding);
  \<open>borda_totals\<close> lists, for document number \<open>k + 1\<close>, the sum over the rows of
  \<open>ndoc - (position + 1)\<close>.
\<close>

definition doc_number :: "'a list \<Rightarrow> 'a \<Rightarrow> nat" where
  "doc_number order d = Suc (position order d)"

definition borda_rows :: "'a iteration \<Rightarrow> nat iteration \<Rightarrow> 'a list list \<Rightarrow> nat list list" where
  "borda_rows iter_docs iter_ids rankings =
     (let order = iter_docs (get_unique_doc_ids rankings)
      in map (\<lambda>rank. map (doc_number order) rank
                       @ iter_ids ({1..length order} - set (map (doc_number order) rank)))
           rankings)"

definition borda_totals :: "nat \<Rightarrow> nat list list \<Rightarrow> int list" where
  "borda_totals n rows =
     map (\<lambda>k. \<Sum>row\<leftarrow>rows. int n - (int (position row (Suc k)) + 1)) [0..<n]"

text \<open>A row of \<^verbatim>\<open>ndranks\<close> is well formed when it lists each number \<open>1..n\<close> once.\<close>

definition is_row :: "nat \<Rightarrow> nat list \<Rightarrow> bool" where
  "is_row n row \<longleftrightarrow> distinct row \<and> set row = {1..n}"

subsection \<open>Markov chain (MC4)\<close>

text \<open>
  The matrices are numpy arrays of \<^verbatim>\<open>float64\<close>, modelled as lists of rows of
  \<open>real\<close>: the arithmetic of the power iteration is idealised as exact.
  Where rounding separates two stationary probabilities that are equal in exact
  arithmetic, or merges two that are not, the ranks the code gives differ from
  the ranks of this model. What is stated below of the chain is either its
  shape (which documents the output holds, whether the call returns), which
  does not depend on the rounding, or is said to hold of the exact chain.
  The data frame holds the position matrix (one row per document, one column
  per ranking) and its number of columns.
\<close>

record dataframe =
  frame_rows :: "nat list list"
  frame_columns :: nat

datatype algo = MC4 | MCT

definition get_matrix_shape :: "dataframe \<Rightarrow> nat \<times> nat" where
  "get_matrix_shape df = (length (frame_rows df), frame_columns df)"

definition get_partial_transition_matrix ::
  "dataframe \<Rightarrow> algo \<Rightarrow> nat \<Rightarrow> nat \<Rightarrow> real list list" where
  "get_partial_transition_matrix df alg items nlists =
     map (\<lambda>i. map (\<lambda>j.
            let result = length (filter (\<lambda>c. frame_rows df ! i ! c < frame_rows df ! j ! c)
                                        [0..<frame_columns df])
            in if result = 0 \<and> i = j then - 1
               else if real result > real nlists / 2 then 0
               else (case alg of
                       MC4 \<Rightarrow> 1
                     | MCT \<Rightarrow> (real nlists - real result) / real nlists))
          [0..<items])
       [0..<items]"

definition get_normalized_transition_matrix :: "real list list \<Rightarrow> nat \<Rightarrow> real list list" where
  "get_normalized_transition_matrix p_matrix items =
     fold (\<lambda>i p.
        fold (\<lambda>j p.
           if i = j
           then p[i := (p ! i)[j := 1 - (sum_list (drop (i + 1) (take items (p ! i)))
                                          + sum_list (take j (p ! i)))]]
           else p)
          [0..<items] p)
       [0..<items]
       (map (map (\<lambda>x. x / real items)) p_matrix)"

definition get_ergodic_transition_matrix ::
  "real list list \<Rightarrow> nat \<Rightarrow> real \<Rightarrow> error + real list list" where
  "get_ergodic_transition_matrix n_matrix items erg_number =
     (if items = 0 then Inl ZeroDivisionError
      else Inr (map (map (\<lambda>x. x * (1 - erg_number) + erg_number / real items)) n_matrix))"

definition get_initial_distribution_matrix :: "nat \<Rightarrow> error + real list" where
  "get_initial_distribution_matrix items =
     (if items = 0 then Inl ZeroDivisionError else Inr (replicate items (1 / real items)))"

text \<open>\<^verbatim>\<open>state_matrix.dot(transition_matrix)\<close>: a row vector times a matrix.\<close>

definition dot :: "real list \<Rightarrow> real list list \<Rightarrow> real list" where
  "dot v m = map (\<lambda>j. \<Sum>i\<leftarrow>[0..<length v]. v ! i * m ! i ! j) [0..<length v]"

function stationary_loop ::
  "real list \<Rightarrow> real list list \<Rightarrow> real \<Rightarrow> nat \<Rightarrow> nat \<Rightarrow> real list" where
  "stationary_loop state_matrix transition_matrix prec iterations counter =
     (if counter \<le> iterations
      then
        let new_state_matrix = dot state_matrix transition_matrix;
            err = map2 (\<lambda>x y. x - y) new_state_matrix state_matrix
        in if list_all (\<lambda>e. \<bar>e\<bar> < prec) err then state_matrix
           else stationary_loop new_state_matrix transition_matrix prec iterations (counter + 1)
      else state_matrix)"
  by pat_completeness auto
termination
  by (relation "measure (\<lambda>(s, t, p, iterations, counter). Suc iterations - counter)") auto

declare stationary_loop.simps [simp del]

definition get_stationary_distribution_matrix ::
  "real list \<Rightarrow> real list list \<Rightarrow> real \<Rightarrow> nat \<Rightarrow> real list" where
  "get_stationary_distribution_matrix state_matrix transition_matrix prec iterations =
     stationary_loop state_matrix transition_matrix prec iterations 1"

definition get_aggregated_ranks :: "real list \<Rightarrow> error + nat list" where
  "get_aggregated_ranks matrix =
     (let (a, rank) = fold (\<lambda>num (a, rank).
                              if a num = None then (a(num \<mapsto> rank), rank + 1) else (a, rank))
                           (rev (sort matrix)) (Map.empty, 1::nat)
      in traverse (lookup a) matrix)"

text \<open>
  With \<^verbatim>\<open>index_col=None\<close> the ranks are keyed by \<^verbatim>\<open>0, 1, ...\<close>; the dict is
  kept as the list of its items in insertion order (the keys are distinct).
\<close>

definition get_mapped_final_ranks :: "dataframe \<Rightarrow> nat list \<Rightarrow> (nat \<times> nat) list" where
  "get_mapped_final_ranks df final_ranks =
     zip [0..<length (frame_rows df) + 1] final_ranks"

definition mc4_aggregator :: "dataframe \<Rightarrow> error + (nat \<times> nat) list" where
  "mc4_aggregator df =
     (let alg = MC4; prec = 1 / 10 ^ 7; iterations = 200; erg_number = 15 / 100;
          (rows, cols) = get_matrix_shape df;
          partial_transition_matrix = get_partial_transition_matrix df alg rows cols;
          normalized_transition_matrix =
            get_normalized_transition_matrix partial_transition_matrix rows
      in case get_ergodic_transition_matrix normalized_transition_matrix rows erg_number of
           Inl e \<Rightarrow> Inl e
         | Inr ergodic_transition_matrix \<Rightarrow>
             (case get_initial_distribution_matrix rows of
                Inl e \<Rightarrow> Inl e
              | Inr initial_distribution_matrix \<Rightarrow>
                  (case get_aggregated_ranks
                          (get_stationary_distribution_matrix initial_distribution_matrix
                             ergodic_transition_matrix prec iterations) of
                     Inl e \<Rightarrow> Inl e
                   | Inr final_ranks \<Rightarrow> Inr (get_mapped_final_ranks df final_ranks))))"

text \<open>
  The loops that fill \<^verbatim>\<open>ndpos[doc - 1, i] = pos + 1\<close> from the rows of
  \<^verbatim>\<open>ndranks\<close>. The row index \<open>-1\<close> that \<open>doc = 0\<close> would give is numpy's
  last row.
\<close>

fun fill_positions ::
  "nat \<Rightarrow> (nat \<times> nat) list \<Rightarrow> nat list list \<Rightarrow> error + nat list list" where
  "fill_positions i [] ndpos = Inr ndpos"
| "fill_positions i ((pos, doc) # todo) ndpos =
     (let r = (if doc = 0 then length ndpos - 1 else doc - 1)
      in if r < length ndpos \<and> i < length (ndpos ! r)
         then fill_positions i todo (ndpos[r := (ndpos ! r)[i := pos + 1]])
         else Inl IndexError)"

fun fill_rankings ::
  "(nat \<times> nat list) list \<Rightarrow> nat list list \<Rightarrow> error + nat list list" where
  "fill_rankings [] ndpos = Inr ndpos"
| "fill_rankings ((i, rank) # todo) ndpos =
     (case fill_positions i (enumerate 0 rank) ndpos of
        Inl e \<Rightarrow> Inl e
      | Inr ndpos' \<Rightarrow> fill_rankings todo ndpos')"

definition MarkovChain_rank_by_id ::
  "'a iteration \<Rightarrow> 'a list list \<Rightarrow> error + (real \<times> 'a) list" where
  "MarkovChain_rank_by_id iter_docs rankings =
     (let docs = get_unique_doc_ids rankings;
          nrank = length rankings;
          ndoc = card docs
      in if length rankings > 0
         then
           let numbered = enumerate 1 (iter_docs docs);
               map_doc_ids = map_of (map (\<lambda>(i, docid). (docid, i)) numbered);
               map_ids_doc = map_of numbered;
               paddings = map (\<lambda>rank. iter_docs (docs - set rank)) rankings
           in case traverse
                     (\<lambda>(rank, padding).
                        case traverse (lookup map_doc_ids) rank of
                          Inl e \<Rightarrow> Inl e
                        | Inr rank_ids \<Rightarrow>
                            (case traverse (lookup map_doc_ids) padding of
                               Inl e \<Rightarrow> Inl e
                             | Inr padding_ids \<Rightarrow> assign_row ndoc (rank_ids @ padding_ids)))
                     (zip rankings paddings) of
                Inl e \<Rightarrow> Inl e
              | Inr ndranks \<Rightarrow>
                  (case fill_rankings (enumerate 0 ndranks)
                          (replicate ndoc (replicate nrank 0)) of
                     Inl e \<Rightarrow> Inl e
                   | Inr ndpos \<Rightarrow>
                       (case mc4_aggregator \<lparr>frame_rows = ndpos, frame_columns = nrank\<rparr> of
                          Inl e \<Rightarrow> Inl e
                        | Inr mc4 \<Rightarrow>
                            (case traverse
                                    (\<lambda>(item, rank).
                                       case lookup map_ids_doc (item + 1) of
                                         Inl e \<Rightarrow> Inl e
                                       | Inr docid \<Rightarrow>
                                           Inr (real_of_int (int ndoc - int rank), docid))
                                    mc4 of
                               Inl e \<Rightarrow> Inl e
                             | Inr rank \<Rightarrow> Inr (sort_key (\<lambda>x. - fst x) rank))))
         else Inl (ValueError ''You must provide some ranking''))"


text \<open>
  Names for stating what the Markov chain aggregation computes: the rows of
  \<^verbatim>\<open>ndranks\<close>, the position matrix \<^verbatim>\<open>ndpos\<close> they give, the distribution
  the power iteration returns for a data frame, and the dense ranks of a vector
  (one plus the number of distinct larger values).
\<close>

definition mc_rows :: "'a iteration \<Rightarrow> 'a list list \<Rightarrow> nat list list" where
  "mc_rows iter_docs rankings =
     (let docs = get_unique_doc_ids rankings; order = iter_docs docs
      in map (\<lambda>rank. map (doc_number order) (rank @ iter_docs (docs - set rank))) rankings)"

definition position_matrix :: "nat \<Rightarrow> nat list list \<Rightarrow> nat list list" where
  "position_matrix n rows =
     map (\<lambda>k. map (\<lambda>i. position (rows ! i) (Suc k) + 1) [0..<length rows]) [0..<n]"

definition mc4_transition :: "dataframe \<Rightarrow> real list list" where
  "mc4_transition df =
     (let items = length (frame_rows df)
      in map (map (\<lambda>x. x * (1 - 15 / 100) + (15 / 100) / real items))
           (get_normalized_transition_matrix
              (get_partial_transition_matrix df MC4 items (frame_columns df)) items))"

definition mc4_distribution :: "dataframe \<Rightarrow> real list" where
  "mc4_distribution df =
     (let items = length (frame_rows df)
      in get_stationary_distribution_matrix
           (replicate items (1 / real items)) (mc4_transition df) (1 / 10 ^ 7) 200)"

text \<open>
  The data frame of a single ranking: document \<open>k\<close> (0-based number) stands at
  the 0-based position \<open>s k\<close> of the ranking.
\<close>

definition single_frame :: "nat \<Rightarrow> (nat \<Rightarrow> nat) \<Rightarrow> dataframe" where
  "single_frame n s = \<lparr>frame_rows = map (\<lambda>k. [s k + 1]) [0..<n], frame_columns = 1\<rparr>"

definition dense_ranks :: "real list \<Rightarrow> nat list" where
  "dense_ranks xs = map (\<lambda>x. Suc (card {y \<in> set xs. x < y})) xs"

text \<open>
  Two invariants used in the proofs: the shape of the position matrix (\<open>n\<close>
  rows of \<open>c\<close> columns), and the state of the loop of
  \<^verbatim>\<open>get_aggregated_ranks\<close> after it has seen the values \<open>S\<close>.
\<close>

definition is_frame :: "nat \<Rightarrow> nat \<Rightarrow> nat list list \<Rightarrow> bool" where
  "is_frame n c m \<longleftrightarrow> length m = n \<and> (\<forall>row \<in> set m. length row = c)"

definition ranked :: "real set \<Rightarrow> (real \<rightharpoonup> nat) \<times> nat \<Rightarrow> bool" where
  "ranked S st \<longleftrightarrow> finite S \<and> dom (fst st) = S \<and> snd st = Suc (card S)
      \<and> (\<forall>x \<in> S. fst st x = Some (Suc (card {y \<in> S. x < y})))"

text \<open>
  Names for the analysis of a single ranking. \<open>fix_diagonal\<close> is one step of
  the loop of \<^verbatim>\<open>get_normalized_transition_matrix\<close>; \<open>mc4_weight\<close> is the
  entry of the partial transition matrix off the diagonal (\<open>0\<close> when document
  \<open>i\<close> is ranked before \<open>j\<close>), \<open>mc4_chain\<close> the normalized matrix. A vector
  follows the ranking when it is positive and never gives a better ranked
  document a smaller value; it separates the ranking when the values are
  strictly decreasing along the ranking.
\<close>

definition fix_diagonal :: "nat \<Rightarrow> nat \<Rightarrow> real list list \<Rightarrow> real list list" where
  "fix_diagonal items i p =
     p[i := (p ! i)[i := 1 - (sum_list (drop (i + 1) (take items (p ! i)))
                               + sum_list (take i (p ! i)))]]"

definition mc4_weight :: "(nat \<Rightarrow> nat) \<Rightarrow> nat \<Rightarrow> nat \<Rightarrow> real" where
  "mc4_weight s i j = (if s i < s j then 0 else 1)"

definition mc4_chain :: "nat \<Rightarrow> (nat \<Rightarrow> nat) \<Rightarrow> nat \<Rightarrow> nat \<Rightarrow> real" where
  "mc4_chain n s i j =
     (if i = j then 1 - (\<Sum>k \<in> {0..<n} - {i}. mc4_weight s i k) / real n
      else mc4_weight s i j / real n)"

definition follows_ranking :: "(nat \<Rightarrow> nat) \<Rightarrow> nat \<Rightarrow> real list \<Rightarrow> bool" where
  "follows_ranking s n v \<longleftrightarrow>
     length v = n \<and> (\<forall>i<n. 0 < v ! i) \<and> (\<forall>a<n. \<forall>b<n. s a < s b \<longrightarrow> v ! b \<le> v ! a)"

definition separates_ranking :: "(nat \<Rightarrow> nat) \<Rightarrow> nat \<Rightarrow> real list \<Rightarrow> bool" where
  "separates_ranking s n v \<longleftrightarrow>
     length v = n \<and> (\<forall>i<n. 0 < v ! i) \<and> (\<forall>a<n. \<forall>b<n. s a < s b \<longrightarrow> v ! b < v ! a)"

section \<open>Properties of the metric library\<close>

lemma fold_count_positive:
  "fold (\<lambda>hit acc. if hit > (0::real) then acc + 1 else acc) xs a
     = a + real (length (filter (\<lambda>hit. hit > 0) xs))"
  by (induction xs arbitrary: a) auto

lemma fold_sum_positive:
  "fold (\<lambda>hit acc. if hit > (0::real) then acc + hit else acc) xs a
     = a + sum_list (filter (\<lambda>hit. hit > 0) xs)"
  by (induction xs arbitrary: a) auto

lemma slice_upto_full: "slice_upto xs (int (length xs) + 1) = xs"
  by (simp add: slice_upto_def)

lemma zero_padding_same: "zero_padding xs (int (length xs)) = xs"
  by (simp add: zero_padding_def)

text \<open>
  Claim C1 (the metric functions never mutate their input vector). The three
  functions alias the caller's list and pad it in place: called on the
  one-element vector \<open>[1]\<close> with \<open>limit = 3\<close>, each of \<^verbatim>\<open>recall\<close>,
  \<^verbatim>\<open>precision\<close> and \<^verbatim>\<open>NDCG\<close> leaves the caller's list as \<open>[1, 0, 0]\<close>.
\<close>

theorem metrics_pad_callers_list:
  "snd (recall [1] \<lparr>limit = Some 3, nrel = None, alternate = None\<rparr>) = [1, 0, 0]
   \<and> snd (precision [1] \<lparr>limit = Some 3, nrel = None, alternate = None\<rparr>) = [1, 0, 0]
   \<and> map_sum id snd (NDCG [1] \<lparr>limit = Some 3, nrel = None, alternate = None\<rparr>)
       = Inr [1, 0, 0]"
  by (simp add: recall_def precision_def NDCG_def zero_padding_def Let_def ndcg_def
        eval_nat_numeral split: sum.splits)

text \<open>
  Claim C3, as stated: \<open>nrel\<close> defaults to the padded length. It fails on
  \<open>[1]\<close> with \<open>limit = 2\<close>: the code divides by the length before padding
  and returns \<open>1\<close>, the stated behaviour gives \<open>1 / 2\<close>.
\<close>

theorem recall_spec_counterexample:
  "fst (recall [1] \<lparr>limit = Some 2, nrel = None, alternate = None\<rparr>) = 1
   \<and> recall_spec [1] \<lparr>limit = Some 2, nrel = None, alternate = None\<rparr> = 1 / 2"
  by (simp add: recall_def recall_spec_def zero_padding_def slice_upto_def Let_def)

text \<open>
  Claim C3, amended: \<open>limit\<close> defaults to the length of \<open>v\<close>; \<open>nrel\<close>
  defaults to the length of \<open>v\<close> before padding and is clamped to that
  length; \<open>v\<close> is right-padded with zeros to length \<open>limit\<close>; the numerator is
  the sum of the positive values of the slice \<^verbatim>\<open>rank[:limit + 1]\<close>; the result
  is numerator / nrel when \<open>nrel > 0\<close> and \<open>0\<close> otherwise.
\<close>

theorem recall_as_coded:
  "fst (recall v kw) =
     (let lmt = (case limit kw of None \<Rightarrow> int (length v) | Some l \<Rightarrow> l);
          nrel0 = (case nrel kw of None \<Rightarrow> real (length v) | Some n \<Rightarrow> n);
          nrel1 = min nrel0 (real (length v));
          padded = v @ replicate (nat (lmt - int (length v))) 0;
          numerator = sum_list (filter (\<lambda>hit. hit > 0) (slice_upto padded (lmt + 1)))
      in if nrel1 > 0 then numerator / nrel1 else 0)"
  by (auto simp: recall_def Let_def zero_padding_def fold_sum_positive min_def
        split: option.splits)

text \<open>
  Claim C5, as stated, fails on the empty vector: \<^verbatim>\<open>ndcg\<close> returns \<open>0.0\<close>
  before it looks at \<open>nranks\<close>.
\<close>

theorem ndcg_empty_counterexample:
  "ndcg [] 0 True = Inr 0"
  by (simp add: ndcg_def)

text \<open>
  Claim C5, amended: for every non-empty relevance vector and every
  \<open>nranks < 1\<close>, \<^verbatim>\<open>ndcg\<close> raises \<^verbatim>\<open>Exception('nranks < 1')\<close>; for the empty
  vector it returns \<open>0.0\<close> whatever \<open>nranks\<close> is.
\<close>

theorem ndcg_nranks_check:
  "(rel \<noteq> [] \<and> nranks < 1 \<longrightarrow> ndcg rel nranks alt = Inl (Exception ''nranks < 1''))
   \<and> (rel = [] \<longrightarrow> ndcg rel nranks alt = Inr 0)"
  by (cases rel) (simp_all add: ndcg_def)

theorem ndcg_nranks_check_witness:
  "[3, 1] \<noteq> ([]::real list) \<and> (0::int) < 1
   \<and> ndcg [3, 1] 0 True = Inl (Exception ''nranks < 1'')
   \<and> ndcg [] 0 True = Inr 0"
  using ndcg_nranks_check [of "[3, 1]" 0 True] ndcg_nranks_check [of "[]" 0 True]
  by simp

text \<open>
  Claim C7: for a non-empty relevance vector \<open>v\<close>, \<^verbatim>\<open>precision\<close> called with
  \<open>limit = len(v)\<close> (given explicitly or by default) lies in \<open>[0, 1]\<close>.
\<close>

theorem precision_unit_interval:
  assumes "v \<noteq> []" and "limit kw = None \<or> limit kw = Some (int (length v))"
  shows "0 \<le> fst (precision v kw) \<and> fst (precision v kw) \<le> 1"
proof -
  have len: "0 < length v" using assms(1) by simp
  have val: "fst (precision v kw)
      = real (length (filter (\<lambda>hit. hit > 0) v)) / real (length v)"
    using assms(2) len
    by (auto simp: precision_def Let_def zero_padding_same slice_upto_full fold_count_positive)
  have "length (filter (\<lambda>hit. hit > 0) v) \<le> length v" by simp
  then have "real (length (filter (\<lambda>hit. hit > 0) v)) \<le> real (length v)" by linarith
  with len show ?thesis unfolding val by (simp add: divide_le_eq_1)
qed

theorem precision_unit_interval_witness:
  "[1, 0, 2] \<noteq> ([]::real list)
   \<and> limit (no_kwargs\<lparr>limit := Some 3\<rparr>) = Some (int (length [1, 0, 2::real]))
   \<and> 0 \<le> fst (precision [1, 0, 2] (no_kwargs\<lparr>limit := Some 3\<rparr>))
   \<and> fst (precision [1, 0, 2] (no_kwargs\<lparr>limit := Some 3\<rparr>)) \<le> 1"
  using precision_unit_interval [of "[1, 0, 2]" "no_kwargs\<lparr>limit := Some 3\<rparr>"]
  by simp


section \<open>Properties of the metric specifications\<close>



















section \<open>Properties of the multi-query evaluation\<close>

lemma build_handles_dom:
  "build_handles gm kw ms d = Inr H \<Longrightarrow>
     (\<forall>m \<in> set ms. H m \<noteq> None) \<and> (\<forall>m. d m \<noteq> None \<longrightarrow> H m \<noteq> None)"
proof (induction ms arbitrary: d)
  case Nil
  then show ?case by simp
next
  case (Cons m ms)
  from Cons.prems obtain h where h: "metric_handle gm m kw = Inr h"
    and rest: "build_handles gm kw ms (d(m \<mapsto> h)) = Inr H"
    by (auto split: sum.splits)
  from Cons.IH [OF rest] show ?case by auto
qed

lemma init_evaluation:
  "fold (\<lambda>m ev. ev(m \<mapsto> (0::real))) ms ev0 m =
     (if m \<in> set ms then Some 0 else ev0 m)"
  by (induction ms arbitrary: ev0) auto

lemma shared_list_values_length:
  "shared_list_values H n ms hv = Inr vals \<Longrightarrow> length vals = length ms"
  by (induction ms arbitrary: hv vals) (auto split: sum.splits prod.splits)

lemma metrics_loop_accumulates:
  assumes "distinct ms" and "\<forall>m \<in> set ms. ev m \<noteq> None"
    and "shared_list_values H n ms hv = Inr vals"
  shows "\<exists>ev' hv'. metrics_loop H n ms hv ev = Inr (ev', hv')
           \<and> (\<forall>m. m \<notin> set ms \<longrightarrow> ev' m = ev m)
           \<and> (\<forall>i<length ms. ev' (ms ! i) = Some (the (ev (ms ! i)) + vals ! i))"
  using assms
proof (induction ms arbitrary: hv ev vals)
  case Nil
  then show ?case by simp
next
  case (Cons m ms)
  from Cons.prems(3) obtain fn params val hv1 vals1 where
    h: "lookup H m = Inr (fn, params)"
    and f: "fn hv (params\<lparr>nrel := Some (real n)\<rparr>) = Inr (val, hv1)"
    and r: "shared_list_values H n ms hv1 = Inr vals1"
    and v: "vals = val # vals1"
    by (auto split: sum.splits prod.splits)
  from Cons.prems(2) obtain acc where acc: "ev m = Some acc" by auto
  let ?ev1 = "ev(m \<mapsto> acc + val)"
  have d: "distinct ms" and nm: "m \<notin> set ms" using Cons.prems(1) by auto
  have cover: "\<forall>k \<in> set ms. ?ev1 k \<noteq> None" using Cons.prems(2) by auto
  from Cons.IH [OF d cover r] obtain ev' hv' where
    l: "metrics_loop H n ms hv1 ?ev1 = Inr (ev', hv')"
    and o: "\<forall>k. k \<notin> set ms \<longrightarrow> ev' k = ?ev1 k"
    and s: "\<forall>i<length ms. ev' (ms ! i) = Some (the (?ev1 (ms ! i)) + vals1 ! i)"
    by blast
  have step: "metrics_loop H n (m # ms) hv ev = Inr (ev', hv')"
    using h acc f l by (simp add: lookup_def)
  have others: "\<forall>k. k \<notin> set (m # ms) \<longrightarrow> ev' k = ev k"
    using o by auto
  have here: "\<forall>i<length (m # ms). ev' ((m # ms) ! i) = Some (the (ev ((m # ms) ! i)) + vals ! i)"
  proof (intro allI impI)
    fix i assume i: "i < length (m # ms)"
    show "ev' ((m # ms) ! i) = Some (the (ev ((m # ms) ! i)) + vals ! i)"
    proof (cases i)
      case 0
      then show ?thesis using o nm acc v by simp
    next
      case (Suc j)
      then have j: "j < length ms" using i by simp
      then have "ms ! j \<noteq> m" using nm by (metis nth_mem)
      then show ?thesis using s j Suc v by simp
    qed
  qed
  from step others here show ?case by blast
qed

lemma query_loop_accumulates:
  assumes "distinct ms" and "\<forall>m \<in> set ms. ev m \<noteq> None"
    and "traverse (query_shared_values searcher H ms) batch = Inr vss"
  shows "\<exists>ev'. query_loop searcher H ms batch (ev, r) = Inr (ev', r + real (length batch))
           \<and> (\<forall>m. m \<notin> set ms \<longrightarrow> ev' m = ev m)
           \<and> (\<forall>i<length ms. ev' (ms ! i) = Some (the (ev (ms ! i)) + (\<Sum>vs\<leftarrow>vss. vs ! i)))"
  using assms(2,3)
proof (induction batch arbitrary: ev r vss)
  case Nil
  then show ?case using assms(1) by (auto simp: nth_mem)
next
  case (Cons q batch)
  obtain qry qrel where q: "q = (qry, qrel)" by (cases q)
  from Cons.prems(2) obtain vs vss1 where
    qv: "query_shared_values searcher H ms q = Inr vs"
    and rest: "traverse (query_shared_values searcher H ms) batch = Inr vss1"
    and vss: "vss = vs # vss1"
    by (auto split: sum.splits)
  from qv q obtain hits hv where
    se: "searcher qry = Some hits"
    and he: "hits_evaluated qrel hits = Inr hv"
    and mv: "shared_list_values H (len_qrel qrel) ms hv = Inr vs"
    by (auto simp: query_shared_values_def split: option.splits sum.splits)
  from metrics_loop_accumulates [OF assms(1) Cons.prems(1) mv] obtain ev1 hv1 where
    l: "metrics_loop H (len_qrel qrel) ms hv ev = Inr (ev1, hv1)"
    and o: "\<forall>m. m \<notin> set ms \<longrightarrow> ev1 m = ev m"
    and s: "\<forall>i<length ms. ev1 (ms ! i) = Some (the (ev (ms ! i)) + vs ! i)"
    by blast
  have cover: "\<forall>m \<in> set ms. ev1 m \<noteq> None"
  proof
    fix m assume "m \<in> set ms"
    then obtain i where "i < length ms" "ms ! i = m" by (auto simp: in_set_conv_nth)
    with s show "ev1 m \<noteq> None" by auto
  qed
  from Cons.IH [OF cover rest, of "r + 1"] obtain ev' where
    l2: "query_loop searcher H ms batch (ev1, r + 1) = Inr (ev', r + 1 + real (length batch))"
    and o2: "\<forall>m. m \<notin> set ms \<longrightarrow> ev' m = ev1 m"
    and s2: "\<forall>i<length ms. ev' (ms ! i) = Some (the (ev1 (ms ! i)) + (\<Sum>vs\<leftarrow>vss1. vs ! i))"
    by blast
  have step: "query_loop searcher H ms (q # batch) (ev, r)
                = Inr (ev', r + real (length (q # batch)))"
    using q se he l l2 by (simp add: add.commute add.left_commute)
  have "\<forall>i<length ms. ev' (ms ! i) = Some (the (ev (ms ! i)) + (\<Sum>vs\<leftarrow>vss. vs ! i))"
    using s s2 vss by (simp add: add.assoc)
  with step o o2 show ?case by auto
qed

lemma divide_loop_zero:
  "ms \<noteq> [] \<Longrightarrow> \<forall>m \<in> set ms. ev m \<noteq> None \<Longrightarrow> divide_loop ms 0 ev = Inl ZeroDivisionError"
  by (cases ms) (auto simp: lookup_def)

lemma divide_loop_divides:
  assumes "ratio \<noteq> 0"
  shows "distinct ms \<Longrightarrow> \<forall>m \<in> set ms. ev m \<noteq> None \<Longrightarrow>
    \<exists>ev'. divide_loop ms ratio ev = Inr ev'
       \<and> (\<forall>m. m \<notin> set ms \<longrightarrow> ev' m = ev m)
       \<and> (\<forall>m \<in> set ms. ev' m = Some (the (ev m) / ratio))"
proof (induction ms arbitrary: ev)
  case Nil
  then show ?case by simp
next
  case (Cons m ms)
  from Cons.prems(2) obtain acc where acc: "ev m = Some acc" by auto
  let ?ev1 = "ev(m \<mapsto> acc / ratio)"
  have d: "distinct ms" and nm: "m \<notin> set ms" using Cons.prems(1) by auto
  have cover: "\<forall>k \<in> set ms. ?ev1 k \<noteq> None" using Cons.prems(2) by auto
  from Cons.IH [OF d cover] obtain ev' where
    l: "divide_loop ms ratio ?ev1 = Inr ev'"
    and o: "\<forall>k. k \<notin> set ms \<longrightarrow> ev' k = ?ev1 k"
    and s: "\<forall>k \<in> set ms. ev' k = Some (the (?ev1 k) / ratio)"
    by blast
  have step: "divide_loop (m # ms) ratio ev = Inr ev'"
    using acc l assms by (simp add: lookup_def)
  have "\<forall>k \<in> set (m # ms). ev' k = Some (the (ev k) / ratio)"
    using o s nm acc by auto
  moreover have "\<forall>k. k \<notin> set (m # ms) \<longrightarrow> ev' k = ev k" using o by auto
  ultimately show ?case using step by blast
qed

lemma requested_metrics_nonempty: "requested_metrics requested \<noteq> []"
  by (simp add: requested_metrics_def DEFAULT_METRIC_LIST_def split: option.splits)

text \<open>
  What the accumulation computes. With metric specifications that resolve, the
  evaluation of an empty query batch raises \<^verbatim>\<open>ZeroDivisionError\<close>; over a
  non-empty batch of \<open>q\<close> queries whose evaluations all succeed, the report
  holds for each requested metric (the metrics being pairwise different, as in
  a set) the sum, divided by \<open>q\<close>, of the values that the calls on the shared
  list returned.
\<close>

lemma multiquery_search_accumulates:
  "(build_handles get_metric kw (requested_metrics requested) Map.empty = Inr H
      \<longrightarrow> multiquery_search searcher get_metric requested kw [] = Inl ZeroDivisionError)
   \<and> (batch \<noteq> [] \<and> distinct (requested_metrics requested)
       \<and> build_handles get_metric kw (requested_metrics requested) Map.empty = Inr H
       \<and> traverse (query_shared_values searcher H (requested_metrics requested)) batch = Inr vss
      \<longrightarrow> (\<exists>report. multiquery_search searcher get_metric requested kw batch = Inr report
             \<and> (\<forall>i<length (requested_metrics requested).
                   report (requested_metrics requested ! i)
                     = Some ((\<Sum>vs\<leftarrow>vss. vs ! i) / real (length batch)))))"
proof (intro conjI impI)
  let ?ms = "requested_metrics requested"
  let ?ev0 = "fold (\<lambda>m ev. ev(m \<mapsto> (0::real))) ?ms Map.empty"
  have cover: "\<forall>m \<in> set ?ms. ?ev0 m \<noteq> None" by (simp add: init_evaluation)
  {
    assume b: "build_handles get_metric kw ?ms Map.empty = Inr H"
    show "multiquery_search searcher get_metric requested kw [] = Inl ZeroDivisionError"
      using b divide_loop_zero [OF requested_metrics_nonempty cover]
      by (simp add: multiquery_search_def)
  }
  {
    assume a: "batch \<noteq> [] \<and> distinct ?ms
       \<and> build_handles get_metric kw ?ms Map.empty = Inr H
       \<and> traverse (query_shared_values searcher H ?ms) batch = Inr vss"
    then have ne: "batch \<noteq> []" and d: "distinct ?ms"
      and b: "build_handles get_metric kw ?ms Map.empty = Inr H"
      and t: "traverse (query_shared_values searcher H ?ms) batch = Inr vss" by auto
    from query_loop_accumulates [OF d cover t, of 0] obtain ev1 where
      l: "query_loop searcher H ?ms batch (?ev0, 0) = Inr (ev1, real (length batch))"
      and s: "\<forall>i<length ?ms. ev1 (?ms ! i) = Some (the (?ev0 (?ms ! i)) + (\<Sum>vs\<leftarrow>vss. vs ! i))"
      by auto
    have cover1: "\<forall>m \<in> set ?ms. ev1 m \<noteq> None"
    proof
      fix m assume "m \<in> set ?ms"
      then obtain i where "i < length ?ms" "?ms ! i = m" by (auto simp: in_set_conv_nth)
      with s show "ev1 m \<noteq> None" by auto
    qed
    have r: "real (length batch) \<noteq> 0" using ne by simp
    from divide_loop_divides [OF r d cover1] obtain report where
      dl: "divide_loop ?ms (real (length batch)) ev1 = Inr report"
      and dv: "\<forall>m \<in> set ?ms. report m = Some (the (ev1 m) / real (length batch))"
      by blast
    have res: "multiquery_search searcher get_metric requested kw batch = Inr report"
      using b l dl by (simp add: multiquery_search_def)
    have "\<forall>i<length ?ms. report (?ms ! i) = Some ((\<Sum>vs\<leftarrow>vss. vs ! i) / real (length batch))"
      using dv s by (simp add: init_evaluation)
    with res show "\<exists>report. multiquery_search searcher get_metric requested kw batch = Inr report
             \<and> (\<forall>i<length ?ms. report (?ms ! i)
                     = Some ((\<Sum>vs\<leftarrow>vss. vs ! i) / real (length batch)))"
      by blast
  }
qed


lemma multiquery_search_accumulates_example:
  "[((), SetJ {''d1''})] \<noteq> []
   \<and> distinct (requested_metrics (Some [''precision'']))
   \<and> build_handles (\<lambda>n. if n = ''precision'' then Inr (\<lambda>v kw. Inr (precision v kw)) else Inl KeyError)
        no_kwargs (requested_metrics (Some [''precision''])) Map.empty
       = Inr [''precision'' \<mapsto> (\<lambda>v kw. Inr (precision v kw), no_kwargs)]
   \<and> traverse (query_shared_values (\<lambda>q. Some [''d1'', ''d2''])
                  [''precision'' \<mapsto> (\<lambda>v kw. Inr (precision v kw), no_kwargs)]
                  (requested_metrics (Some [''precision''])))
        [((), SetJ {''d1''})] = Inr [[1 / 2]]
   \<and> multiquery_search (\<lambda>q. Some [''d1'', ''d2''])
        (\<lambda>n. if n = ''precision'' then Inr (\<lambda>v kw. Inr (precision v kw)) else Inl KeyError)
        (Some [''precision'']) no_kwargs ([] :: (unit \<times> string qrels) list) = Inl ZeroDivisionError
   \<and> map_sum id (\<lambda>report. report ''precision'')
        (multiquery_search (\<lambda>q. Some [''d1'', ''d2''])
           (\<lambda>n. if n = ''precision'' then Inr (\<lambda>v kw. Inr (precision v kw)) else Inl KeyError)
           (Some [''precision'']) no_kwargs [((), SetJ {''d1''})]) = Inr (Some (1 / 2))"
proof -
  let ?gm = "\<lambda>n. if n = ''precision'' then Inr (\<lambda>v kw. Inr (precision v kw)) else Inl KeyError"
  let ?H = "[''precision'' \<mapsto> (\<lambda>v kw. Inr (precision v kw), no_kwargs)]"
  let ?s = "\<lambda>q::unit. Some [''d1'', ''d2'']"
  let ?batch = "[((), SetJ {''d1''})]"
  have ms: "requested_metrics (Some [''precision'']) = [''precision'']"
    by (simp add: requested_metrics_def)
  have b: "build_handles ?gm no_kwargs (requested_metrics (Some [''precision''])) Map.empty = Inr ?H"
    by (simp add: ms metric_handle_def split_limit_def)
  have t: "traverse (query_shared_values ?s ?H (requested_metrics (Some [''precision'']))) ?batch
             = Inr [[1 / 2]]"
    by (simp add: ms query_shared_values_def hits_evaluated_def truth_def len_qrel_def lookup_def
          precision_def no_kwargs_def zero_padding_def slice_upto_def Let_def)
  from multiquery_search_accumulates [of ?gm no_kwargs "Some [''precision'']" ?H ?s ?batch "[[1 / 2]]"] b t
  show ?thesis by (auto simp: ms)
qed

lemma split_limit_recall_at_4: "split_limit ''recall@4'' = Inr (''recall'', Some 4)"
  by (simp add: split_limit_def py_int_def strip_def is_space_def is_digit_def
        digits_to_nat_def digit_value_def)

lemma split_limit_precision: "split_limit ''precision'' = Inr (''precision'', None)"
  by (simp add: split_limit_def)

text \<open>
  Claim C8 (the report of a non-empty batch holds, for each requested metric,
  the sum of that metric's per-query values divided by the number of queries).
  One query whose only hit \<open>d1\<close> is relevant has the relevance vector \<open>[1]\<close>,
  whose precision is \<open>1\<close>. Evaluated with the metrics \<open>recall@4\<close> and
  \<open>precision\<close>, in this order, the report gives precision \<open>1/4\<close>:
  \<^verbatim>\<open>recall\<close> pads the shared list \<^verbatim>\<open>hits_evaluated\<close> to \<open>[1, 0, 0, 0]\<close>, and
  \<^verbatim>\<open>precision\<close> is then called on the padded list. With the same two metrics in
  the other order the report gives precision \<open>1\<close>. The metric functions are
  looked up by name: \<open>recall\<close> and \<open>precision\<close> resolve to the functions of
  core/metrics/defaults.py.
\<close>

theorem multiquery_search_shared_list:
  "hits_evaluated (SetJ {''d1''}) [''d1''] = Inr [1]
   \<and> fst (precision [1] (no_kwargs\<lparr>nrel := Some 1\<rparr>)) = 1
   \<and> map_sum id (\<lambda>report. (report ''recall@4'', report ''precision''))
        (multiquery_search (\<lambda>q. Some [''d1''])
           (\<lambda>n. if n = ''recall'' then Inr (\<lambda>v kw. Inr (recall v kw))
                else if n = ''precision'' then Inr (\<lambda>v kw. Inr (precision v kw))
                else Inl KeyError)
           (Some [''recall@4'', ''precision'']) no_kwargs [((), SetJ {''d1''})])
       = Inr (Some 1, Some (1 / 4))
   \<and> map_sum id (\<lambda>report. (report ''recall@4'', report ''precision''))
        (multiquery_search (\<lambda>q. Some [''d1''])
           (\<lambda>n. if n = ''recall'' then Inr (\<lambda>v kw. Inr (recall v kw))
                else if n = ''precision'' then Inr (\<lambda>v kw. Inr (precision v kw))
                else Inl KeyError)
           (Some [''precision'', ''recall@4'']) no_kwargs [((), SetJ {''d1''})])
       = Inr (Some 1, Some 1)"
proof -
  have v: "hits_evaluated (SetJ {''d1''}) [''d1''] = Inr [1]"
    by (simp add: hits_evaluated_def truth_def)
  have p: "fst (precision [1] (no_kwargs\<lparr>nrel := Some 1\<rparr>)) = 1"
    by (simp add: precision_def no_kwargs_def zero_padding_def slice_upto_def Let_def)
  have a: "map_sum id (\<lambda>report. (report ''recall@4'', report ''precision''))
        (multiquery_search (\<lambda>q. Some [''d1''])
           (\<lambda>n. if n = ''recall'' then Inr (\<lambda>v kw. Inr (recall v kw))
                else if n = ''precision'' then Inr (\<lambda>v kw. Inr (precision v kw))
                else Inl KeyError)
           (Some [''recall@4'', ''precision'']) no_kwargs [((), SetJ {''d1''})])
       = Inr (Some 1, Some (1 / 4))"
    by (simp add: multiquery_search_def requested_metrics_def metric_handle_def
          split_limit_recall_at_4 split_limit_precision
          hits_evaluated_def truth_def len_qrel_def lookup_def recall_def precision_def
          no_kwargs_def zero_padding_def slice_upto_def Let_def eval_nat_numeral)
  have b: "map_sum id (\<lambda>report. (report ''recall@4'', report ''precision''))
        (multiquery_search (\<lambda>q. Some [''d1''])
           (\<lambda>n. if n = ''recall'' then Inr (\<lambda>v kw. Inr (recall v kw))
                else if n = ''precision'' then Inr (\<lambda>v kw. Inr (precision v kw))
                else Inl KeyError)
           (Some [''precision'', ''recall@4'']) no_kwargs [((), SetJ {''d1''})])
       = Inr (Some 1, Some 1)"
    by (simp add: multiquery_search_def requested_metrics_def metric_handle_def
          split_limit_recall_at_4 split_limit_precision
          hits_evaluated_def truth_def len_qrel_def lookup_def recall_def precision_def
          no_kwargs_def zero_padding_def slice_upto_def Let_def eval_nat_numeral)
  from v p a b show ?thesis by blast
qed

text \<open>
  Claim C2 (a graded judgment gives grade \<open>0\<close> to a hit it does not list).
  The dict branch of the truth function is \<^verbatim>\<open>qrel[x]\<close>: with the judgment
  \<open>{d1: 2}\<close> and the hits \<open>d1, d2\<close> building the relevance vector raises
  \<^verbatim>\<open>KeyError\<close> at \<open>d2\<close>, where the set branch gives \<open>[1, 0]\<close>.
\<close>

theorem truth_dict_missing_id:
  "hits_evaluated (DictJ [''d1'' \<mapsto> 2]) [''d1'', ''d2''] = Inl KeyError
   \<and> hits_evaluated (SetJ {''d1''}) [''d1'', ''d2''] = Inr [1, 0]"
  by (simp add: hits_evaluated_def truth_def lookup_def)


section \<open>Properties of the rank aggregation\<close>

subsection \<open>Universe, numbering and rows\<close>

lemma traverse_map:
  "(\<And>x. x \<in> set xs \<Longrightarrow> f x = Inr (g x)) \<Longrightarrow> traverse f xs = Inr (map g xs)"
  by (induction xs) auto

lemma fold_insert_set: "fold insert xs S = set xs \<union> S"
  by (induction xs arbitrary: S) auto

lemma fold_fold_insert: "fold (\<lambda>rank docs. fold insert rank docs) rs S = \<Union> (set ` set rs) \<union> S"
  by (induction rs arbitrary: S) (auto simp: fold_insert_set)

lemma get_unique_doc_ids_eq: "get_unique_doc_ids rankings = \<Union> (set ` set rankings)"
  by (simp add: get_unique_doc_ids_def fold_fold_insert)

lemma finite_unique_doc_ids: "finite (get_unique_doc_ids rankings)"
  by (simp add: get_unique_doc_ids_eq)

lemma position_less: "x \<in> set xs \<Longrightarrow> position xs x < length xs"
  unfolding position_def by (induction xs) auto

lemma nth_position: "x \<in> set xs \<Longrightarrow> xs ! position xs x = x"
  unfolding position_def by (induction xs) auto

lemma position_nth: "distinct xs \<Longrightarrow> i < length xs \<Longrightarrow> position xs (xs ! i) = i"
  unfolding position_def
proof (induction xs arbitrary: i)
  case Nil
  then show ?case by simp
next
  case (Cons a xs)
  then show ?case by (cases i) auto
qed

lemma position_inj: "x \<in> set xs \<Longrightarrow> y \<in> set xs \<Longrightarrow> position xs x = position xs y \<Longrightarrow> x = y"
  by (metis nth_position)

lemma enumerate_one: "enumerate 1 xs = zip [1..<Suc (length xs)] xs"
  by (simp add: enumerate_eq_zip)

lemma map_ids_doc_lookup:
  "k < length order \<Longrightarrow> map_of (enumerate 1 order) (Suc k) = Some (order ! k)"
proof -
  assume k: "k < length order"
  have "(Suc k, order ! k) \<in> set (enumerate 1 order)"
    using k by (auto simp: in_set_enumerate_eq)
  moreover have "distinct (map fst (enumerate 1 order))" by simp
  ultimately show ?thesis by (simp add: map_of_is_SomeI)
qed

lemma map_ids_doc_none:
  "map_of (enumerate 1 order) i = Some d \<Longrightarrow> 1 \<le> i \<and> i \<le> length order"
  by (auto dest!: map_of_SomeD simp: in_set_enumerate_eq)

lemma map_doc_ids_lookup:
  assumes "distinct order" "d \<in> set order"
  shows "map_of (map (\<lambda>(i, docid). (docid, i)) (enumerate 1 order)) d = Some (Suc (position order d))"
proof -
  let ?k = "position order d"
  have k: "?k < length order" and n: "order ! ?k = d"
    using assms(2) by (simp_all add: position_less nth_position)
  have "(Suc ?k, d) \<in> set (enumerate 1 order)"
    using k n by (auto simp: in_set_enumerate_eq)
  then have "(d, Suc ?k) \<in> set (map (\<lambda>(i, docid). (docid, i)) (enumerate 1 order))"
    by force
  moreover have "map fst (map (\<lambda>(i, docid). (docid, i)) (enumerate 1 order))
                   = map snd (enumerate 1 order)"
    by (rule nth_equalityI) (simp_all add: nth_enumerate_eq)
  then have "map fst (map (\<lambda>(i, docid). (docid, i)) (enumerate 1 order)) = order"
    by simp
  ultimately show ?thesis using assms(1) by (simp add: map_of_is_SomeI)
qed

lemma set_doc_ids_eq: "set (map fst (enumerate 1 order)) = {1..length order}"
  by auto

lemma iterates_onD:
  "iterates_on U iter \<Longrightarrow> S \<subseteq> U \<Longrightarrow> distinct (iter S) \<and> set (iter S) = S"
  by (simp add: iterates_on_def)

lemma iterates_on_listing: "distinct xs \<Longrightarrow> iterates_on (set xs) (listing xs)"
  by (auto simp: iterates_on_def listing_def)

subsection \<open>Borda count\<close>

lemma traverse_doc_ids:
  assumes "distinct order" "set rank \<subseteq> set order"
  shows "traverse (lookup (map_of (map (\<lambda>(i, docid). (docid, i)) (enumerate 1 order)))) rank
           = Inr (map (doc_number order) rank)"
  using assms
  by (intro traverse_map) (auto simp: lookup_def map_doc_ids_lookup [simplified] doc_number_def)

lemma doc_number_range: "d \<in> set order \<Longrightarrow> doc_number order d \<in> {1..length order}"
  using position_less [of d order] by (auto simp: doc_number_def)

lemma doc_number_inj: "inj_on (doc_number order) (set order)"
  by (auto simp: inj_on_def doc_number_def dest: position_inj)

lemma is_row_length: "is_row n row \<Longrightarrow> length row = n"
  by (metis is_row_def distinct_card card_atLeastAtMost diff_Suc_1 Suc_eq_plus1 add_diff_cancel_right')

lemma borda_row_is_row:
  assumes "distinct order" "distinct rank" "set rank \<subseteq> set order"
    and "iterates_on {1..length order} iter_ids"
  shows "is_row (length order)
           (map (doc_number order) rank
              @ iter_ids ({1..length order} - set (map (doc_number order) rank)))"
proof -
  let ?ids = "map (doc_number order) rank"
  let ?pad = "iter_ids ({1..length order} - set ?ids)"
  have d1: "distinct ?ids"
    using assms(2,3) doc_number_inj [of order]
    by (simp add: distinct_map inj_on_subset)
  have s1: "set ?ids \<subseteq> {1..length order}"
    using assms(3) doc_number_range [of _ order] by auto
  have p: "distinct ?pad \<and> set ?pad = {1..length order} - set ?ids"
    using iterates_onD [OF assms(4), of "{1..length order} - set ?ids"] by auto
  show ?thesis
    unfolding is_row_def using d1 s1 p by auto
qed

lemma rank_score_loop_ok:
  assumes "is_row n row"
  shows "set js \<subseteq> {0..<n} \<Longrightarrow> distinct js \<Longrightarrow> length b = n \<Longrightarrow>
     \<exists>b'. rank_score_loop n row js (err, b) = Inr (err, b') \<and> length b' = n \<and>
        (\<forall>i\<in>set js. b' ! (row ! i - 1) = int n - (int i + 1)) \<and>
        (\<forall>k<n. k \<notin> (\<lambda>i. row ! i - 1) ` set js \<longrightarrow> b' ! k = b ! k)"
proof (induction js arbitrary: b)
  case Nil
  then show ?case by simp
next
  case (Cons j js)
  have len: "length row = n" using assms by (rule is_row_length)
  have rng: "\<And>i. i < n \<Longrightarrow> 1 \<le> row ! i \<and> row ! i \<le> n"
    using assms len unfolding is_row_def by (metis atLeastAtMost_iff nth_mem)
  have j: "j < n" using Cons.prems(1) by simp
  let ?r = "row ! j"
  let ?b1 = "b[?r - 1 := int n - (int j + 1)]"
  have r: "1 \<le> ?r" "?r - 1 < n" using rng [OF j] by auto
  have l1: "length ?b1 = n" using Cons.prems(3) by simp
  from Cons.IH [of ?b1] Cons.prems l1 obtain b' where
    run: "rank_score_loop n row js (err, ?b1) = Inr (err, b')"
    and lb: "length b' = n"
    and set: "\<forall>i\<in>set js. b' ! (row ! i - 1) = int n - (int i + 1)"
    and keep: "\<forall>k<n. k \<notin> (\<lambda>i. row ! i - 1) ` set js \<longrightarrow> b' ! k = ?b1 ! k"
    by auto
  have notin: "?r - 1 \<notin> (\<lambda>i. row ! i - 1) ` set js"
  proof
    assume "?r - 1 \<in> (\<lambda>i. row ! i - 1) ` set js"
    then obtain i where i: "i \<in> set js" "row ! i - 1 = ?r - 1" by auto
    then have i_lt: "i < n" using Cons.prems(1) by auto
    have "row ! i = ?r" using i(2) rng [OF i_lt] r by linarith
    then have "i = j" using assms i_lt j len by (simp add: is_row_def nth_eq_iff_index_eq)
    then show False using i(1) Cons.prems(2) by simp
  qed
  have here: "b' ! (?r - 1) = int n - (int j + 1)"
    using keep r notin Cons.prems(3) by simp
  have step: "rank_score_loop n row (j # js) (err, b) = Inr (err, b')"
    using run j len r Cons.prems(3) by (simp add: nth_err_def)
  have keep': "\<forall>k<n. k \<notin> (\<lambda>i. row ! i - 1) ` set (j # js) \<longrightarrow> b' ! k = b ! k"
    using keep by auto
  show ?case using step lb set here keep' by auto
qed

lemma rank_score_row:
  assumes "is_row n row"
  shows "rank_score n row = Inr (map (\<lambda>k. int n - (int (position row (Suc k)) + 1)) [0..<n])"
proof -
  have len: "length row = n" using assms by (rule is_row_length)
  from rank_score_loop_ok [OF assms, of "[0..<n]" "replicate n 0" False] obtain b' where
    run: "rank_score_loop n row [0..<n] (False, replicate n 0) = Inr (False, b')"
    and lb: "length b' = n"
    and set: "\<forall>i<n. b' ! (row ! i - 1) = int n - (int i + 1)"
    by auto
  have "b' = map (\<lambda>k. int n - (int (position row (Suc k)) + 1)) [0..<n]"
  proof (rule nth_equalityI)
    show "length b' = length (map (\<lambda>k. int n - (int (position row (Suc k)) + 1)) [0..<n])"
      using lb by simp
  next
    fix k assume "k < length b'"
    then have k: "k < n" using lb by simp
    then have mem: "Suc k \<in> set row" using assms by (simp add: is_row_def)
    let ?i = "position row (Suc k)"
    have i: "?i < n" "row ! ?i = Suc k"
      using mem len position_less [of "Suc k" row] nth_position [of "Suc k" row] by auto
    from set i have "b' ! k = int n - (int ?i + 1)" by force
    then show "b' ! k = map (\<lambda>k. int n - (int (position row (Suc k)) + 1)) [0..<n] ! k"
      using k by simp
  qed
  with run show ?thesis by (simp add: rank_score_def)
qed

lemma fit_rows:
  assumes "\<forall>row \<in> set rows. is_row n row"
  shows "fit argsort (length rows) n rows
           = Inr (rev (map (\<lambda>i. i + 1) (argsort (borda_totals n rows))), borda_totals n rows)"
proof -
  let ?g = "\<lambda>row. map (\<lambda>k. int n - (int (position row (Suc k)) + 1)) [0..<n]"
  have "traverse (\<lambda>i. case nth_err rows i of Inl e \<Rightarrow> Inl e | Inr row \<Rightarrow> rank_score n row)
          [0..<length rows] = Inr (map (\<lambda>i. ?g (rows ! i)) [0..<length rows])"
    using assms by (intro traverse_map) (simp add: nth_err_def rank_score_row)
  moreover have "map (\<lambda>i. ?g (rows ! i)) [0..<length rows] = map ?g rows"
    by (rule nth_equalityI) simp_all
  moreover have "map (\<lambda>j. \<Sum>row\<leftarrow>map ?g rows. row ! j) [0..<n] = borda_totals n rows"
    unfolding borda_totals_def
    by (rule map_cong [OF refl]) (simp add: comp_def cong: map_cong)
  ultimately show ?thesis by (simp add: fit_def Let_def)
qed

lemma argsort_perm:
  "sorts_ascending argsort \<Longrightarrow> mset (argsort data) = mset [0..<length data]"
  by (simp add: sorts_ascending_def)

lemma argsort_set:
  assumes "sorts_ascending argsort"
  shows "set (argsort data) = {0..<length data}"
proof -
  have "set (argsort data) = set [0..<length data]"
    using argsort_perm [OF assms, of data] by (rule mset_eq_setD)
  then show ?thesis by simp
qed

lemma argsort_length:
  assumes "sorts_ascending argsort"
  shows "length (argsort data) = length data"
proof -
  have "length (argsort data) = length [0..<length data]"
    using argsort_perm [OF assms, of data] by (rule mset_eq_length)
  then show ?thesis by simp
qed

lemma argsort_distinct:
  assumes "sorts_ascending argsort"
  shows "distinct (argsort data)"
proof -
  have "distinct [0..<length data]" by simp
  then show ?thesis
    using argsort_perm [OF assms, of data] by (metis mset_eq_imp_distinct_iff)
qed

lemma argsort_sorted:
  "sorts_ascending argsort \<Longrightarrow> sorted (map (\<lambda>i. data ! i) (argsort data))"
  by (simp add: sorts_ascending_def)

lemma sorts_ascending_stable: "sorts_ascending argsort_stable"
  by (simp add: sorts_ascending_def argsort_stable_def)

lemma sorted_rev_negated:
  fixes f :: "nat \<Rightarrow> int"
  assumes "sorted (map (\<lambda>x. - f x) zs)"
  shows "sorted (map f (rev zs))"
proof -
  have "sorted_wrt (\<lambda>x y. f y \<le> f x) zs"
    using assms by (simp add: sorted_wrt_map)
  then have "sorted_wrt (\<lambda>x y. y \<le> x) (map f zs)" by (simp add: sorted_wrt_map)
  then have "sorted (rev (map f zs))" by (simp add: sorted_wrt_rev)
  then show ?thesis by (simp add: rev_map)
qed

lemma sorts_ascending_ties_reversed: "sorts_ascending argsort_ties_reversed"
  unfolding sorts_ascending_def argsort_ties_reversed_def
proof (intro allI conjI)
  fix data :: "int list"
  show "mset (rev (sort_key (\<lambda>i. - (data ! i)) [0..<length data])) = mset [0..<length data]"
    by simp
  have "sorted (map (\<lambda>i. - (data ! i)) (sort_key (\<lambda>i. - (data ! i)) [0..<length data]))"
    by (rule sorted_sort_key)
  then show "sorted (map (\<lambda>i. data ! i) (rev (sort_key (\<lambda>i. - (data ! i)) [0..<length data])))"
    by (rule sorted_rev_negated)
qed

lemma BordaCount_rank_by_id_eq:
  fixes rankings :: "'a list list"
  defines "U \<equiv> get_unique_doc_ids rankings"
  assumes srt: "sorts_ascending argsort"
    and ne: "rankings \<noteq> []" and dist: "\<forall>r \<in> set rankings. distinct r"
    and it_docs: "iterates_on U iter_docs"
    and it_ids: "iterates_on {1..card U} iter_ids"
  shows "BordaCount_rank_by_id argsort iter_docs iter_ids rankings =
           Inr (map (\<lambda>k. (real_of_int (borda_totals (card U) (borda_rows iter_docs iter_ids rankings) ! k),
                          iter_docs U ! k))
                  (rev (argsort (borda_totals (card U) (borda_rows iter_docs iter_ids rankings)))))"
proof -
  let ?order = "iter_docs U"
  let ?n = "card U"
  let ?rows = "borda_rows iter_docs iter_ids rankings"
  let ?data = "borda_totals ?n ?rows"
  have ord: "distinct ?order" "set ?order = U"
    using iterates_onD [OF it_docs, of U] by auto
  have len: "length ?order = ?n" using ord by (metis distinct_card)
  have sub: "\<And>r. r \<in> set rankings \<Longrightarrow> set r \<subseteq> set ?order"
    using ord(2) by (auto simp: U_def get_unique_doc_ids_eq)
  have rows: "\<forall>row \<in> set ?rows. is_row ?n row"
    using borda_row_is_row [OF ord(1) _ sub, of _ iter_ids] dist it_ids len
    by (auto simp: borda_rows_def Let_def U_def)
  have build: "traverse
        (\<lambda>rank. case traverse (lookup (map_of (map (\<lambda>(i, docid). (docid, i)) (enumerate 1 ?order)))) rank of
                   Inl e \<Rightarrow> Inl e
                 | Inr rank_ids \<Rightarrow>
                     assign_row ?n (rank_ids @ iter_ids (set (map fst (enumerate 1 ?order)) - set rank_ids)))
        rankings = Inr ?rows"
    unfolding borda_rows_def Let_def U_def [symmetric]
  proof (rule traverse_map)
    fix rank assume r: "rank \<in> set rankings"
    have row: "is_row ?n (map (doc_number ?order) rank
                 @ iter_ids ({1..length ?order} - set (map (doc_number ?order) rank)))"
      using borda_row_is_row [OF ord(1) _ sub [OF r], of iter_ids] dist r it_ids len by auto
    show "(case traverse (lookup (map_of (map (\<lambda>(i, docid). (docid, i)) (enumerate 1 ?order)))) rank of
             Inl e \<Rightarrow> Inl e
           | Inr rank_ids \<Rightarrow>
               assign_row ?n (rank_ids @ iter_ids (set (map fst (enumerate 1 ?order)) - set rank_ids)))
          = Inr (map (doc_number ?order) rank
                   @ iter_ids ({1..length ?order} - set (map (doc_number ?order) rank)))"
      using traverse_doc_ids [OF ord(1) sub [OF r]] is_row_length [OF row]
      by (simp add: assign_row_def set_doc_ids_eq [simplified])
  qed
  have nrows: "length ?rows = length rankings" by (simp add: borda_rows_def Let_def)
  have fit: "fit argsort (length rankings) ?n ?rows = Inr (rev (map (\<lambda>i. i + 1) (argsort ?data)), ?data)"
    using fit_rows [OF rows] nrows by simp
  let ?idx = "rev (map (\<lambda>i. i + 1) (argsort ?data))"
  have ld: "length ?data = ?n" by (simp add: borda_totals_def)
  have li: "length ?idx = ?n" using ld by (simp add: argsort_length [OF srt])
  have idx_rng: "\<And>i. i < ?n \<Longrightarrow> 1 \<le> ?idx ! i \<and> ?idx ! i - 1 < ?n"
  proof -
    fix i assume "i < ?n"
    then have "?idx ! i \<in> set ?idx" using li by (metis nth_mem)
    then show "1 \<le> ?idx ! i \<and> ?idx ! i - 1 < ?n"
      using ld by (auto simp: argsort_set [OF srt])
  qed
  have out: "traverse
        (\<lambda>i. case nth_err ?idx i of
                Inl e \<Rightarrow> Inl e
              | Inr d \<Rightarrow>
                  (case nth_err ?data (d - 1) of
                     Inl e \<Rightarrow> Inl e
                   | Inr sc \<Rightarrow>
                       (case lookup (map_of (enumerate 1 ?order)) d of
                          Inl e \<Rightarrow> Inl e
                        | Inr docid \<Rightarrow> Inr (real_of_int sc, docid))))
        [0..<?n]
      = Inr (map (\<lambda>i. (real_of_int (?data ! (?idx ! i - 1)), ?order ! (?idx ! i - 1))) [0..<?n])"
  proof (rule traverse_map)
    fix i assume "i \<in> set [0..<?n]"
    then have i: "i < ?n" by simp
    from idx_rng [OF i] obtain k where k: "?idx ! i = Suc k" "k < ?n"
      by (cases "?idx ! i") auto
    have "map_of (enumerate 1 ?order) (Suc k) = Some (?order ! k)"
      using map_ids_doc_lookup [of k ?order] k(2) len by simp
    then show "(case nth_err ?idx i of
                Inl e \<Rightarrow> Inl e
              | Inr d \<Rightarrow>
                  (case nth_err ?data (d - 1) of
                     Inl e \<Rightarrow> Inl e
                   | Inr sc \<Rightarrow>
                       (case lookup (map_of (enumerate 1 ?order)) d of
                          Inl e \<Rightarrow> Inl e
                        | Inr docid \<Rightarrow> Inr (real_of_int sc, docid))))
          = Inr (real_of_int (?data ! (?idx ! i - 1)), ?order ! (?idx ! i - 1))"
      using i li ld k by (simp add: nth_err_def lookup_def)
  qed
  have shape: "map (\<lambda>i. (real_of_int (?data ! (?idx ! i - 1)), ?order ! (?idx ! i - 1))) [0..<?n]
      = map (\<lambda>k. (real_of_int (?data ! k), ?order ! k)) (rev (argsort ?data))"
  proof (rule nth_equalityI)
    show "length (map (\<lambda>i. (real_of_int (?data ! (?idx ! i - 1)), ?order ! (?idx ! i - 1))) [0..<?n])
        = length (map (\<lambda>k. (real_of_int (?data ! k), ?order ! k)) (rev (argsort ?data)))"
      using ld by (simp add: argsort_length [OF srt])
  next
    fix i assume "i < length (map (\<lambda>i. (real_of_int (?data ! (?idx ! i - 1)), ?order ! (?idx ! i - 1))) [0..<?n])"
    then have i: "i < ?n" by simp
    then have i': "i < length (rev (argsort ?data))" using ld by (simp add: argsort_length [OF srt])
    have "?idx ! i = rev (argsort ?data) ! i + 1"
      using i' by (simp add: rev_map)
    then show "map (\<lambda>i. (real_of_int (?data ! (?idx ! i - 1)), ?order ! (?idx ! i - 1))) [0..<?n] ! i
        = map (\<lambda>k. (real_of_int (?data ! k), ?order ! k)) (rev (argsort ?data)) ! i"
      using i i' by simp
  qed
  show ?thesis
    unfolding BordaCount_rank_by_id_def Let_def U_def [symmetric]
    using ne build fit out shape by simp
qed

subsection \<open>Markov chain: shapes and dense ranks\<close>

lemma dot_length: "length (dot v m) = length v"
  by (simp add: dot_def)

lemma stationary_loop_length:
  "length (stationary_loop s t p it c) = length s"
proof (induction s t p it c rule: stationary_loop.induct)
  case (1 s t p it c)
  show ?case
    using 1 by (subst stationary_loop.simps) (auto simp: Let_def dot_length)
qed

lemma mc4_distribution_length: "length (mc4_distribution df) = length (frame_rows df)"
  by (simp add: mc4_distribution_def get_stationary_distribution_matrix_def
        stationary_loop_length Let_def)

lemma ranks_fold:
  assumes "ranked S st" and "sorted_wrt (\<ge>) xs" and "\<forall>x \<in> set xs. \<forall>s \<in> S. x \<le> s"
  shows "ranked (S \<union> set xs)
           (fold (\<lambda>num (a, rank). if a num = None then (a(num \<mapsto> rank), rank + 1) else (a, rank))
              xs st)"
  using assms
proof (induction xs arbitrary: S st)
  case Nil
  then show ?case by simp
next
  case (Cons num xs)
  obtain a r where st: "st = (a, r)" by (cases st)
  let ?st1 = "if a num = None then (a(num \<mapsto> r), r + 1) else (a, r)"
  have fin: "finite S" and dm: "dom a = S" and r: "r = Suc (card S)"
    and val: "\<forall>x \<in> S. a x = Some (Suc (card {y \<in> S. x < y}))"
    using Cons.prems(1) st by (auto simp: ranked_def)
  have step: "ranked (insert num S) ?st1"
  proof (cases "a num = None")
    case True
    then have new: "num \<notin> S" using dm by auto
    have below: "\<forall>s \<in> S. num < s"
      using Cons.prems(3) new by (metis list.set_intros(1) order_le_less)
    have e1: "{y \<in> insert num S. num < y} = S" using below by auto
    have e2: "\<And>x. x \<in> S \<Longrightarrow> {y \<in> insert num S. x < y} = {y \<in> S. x < y}"
      using below by (auto simp: not_less_iff_gr_or_eq)
    show ?thesis
      using True fin dm r val new e1 e2 by (auto simp: ranked_def)
  next
    case False
    then have "num \<in> S" using dm by auto
    then have "insert num S = S" by auto
    then show ?thesis using False Cons.prems(1) st by auto
  qed
  have sorted: "sorted_wrt (\<ge>) xs" using Cons.prems(2) by simp
  have le: "\<forall>x \<in> set xs. \<forall>s \<in> insert num S. x \<le> s"
    using Cons.prems(2,3) by auto
  have eq: "insert num S \<union> set xs = S \<union> set (num # xs)" by auto
  from Cons.IH [OF step sorted le] show ?case
    unfolding eq using st by simp
qed

lemma get_aggregated_ranks_eq: "get_aggregated_ranks m = Inr (dense_ranks m)"
proof -
  let ?st = "fold (\<lambda>num (a, rank). if a num = None then (a(num \<mapsto> rank), rank + 1) else (a, rank))
              (rev (sort m)) (Map.empty, 1::nat)"
  have "ranked {} (Map.empty, 1::nat)" by (simp add: ranked_def)
  moreover have "sorted_wrt (\<ge>) (rev (sort m))"
    using sorted_sort [of m] by (simp add: sorted_wrt_rev)
  ultimately have "ranked ({} \<union> set (rev (sort m))) ?st"
    by (intro ranks_fold) auto
  then have rk: "ranked (set m) ?st" by simp
  obtain a r where st: "?st = (a, r)" by (cases ?st)
  have "traverse (lookup a) m = Inr (map (\<lambda>x. Suc (card {y \<in> set m. x < y})) m)"
    using rk st by (intro traverse_map) (auto simp: ranked_def lookup_def)
  then show ?thesis
    using st by (simp add: get_aggregated_ranks_def dense_ranks_def)
qed

lemma mc4_aggregator_eq:
  assumes "frame_rows df \<noteq> []"
  shows "mc4_aggregator df
           = Inr (zip [0..<length (frame_rows df)] (dense_ranks (mc4_distribution df)))"
proof -
  have n: "length (frame_rows df) \<noteq> 0" using assms by simp
  have "zip [0..<length (frame_rows df) + 1] (dense_ranks (mc4_distribution df))
      = zip [0..<length (frame_rows df)] (dense_ranks (mc4_distribution df))"
    by (simp add: dense_ranks_def mc4_distribution_length zip_append1)
  then show ?thesis
    using n
    by (simp add: mc4_aggregator_def get_matrix_shape_def get_ergodic_transition_matrix_def
          get_initial_distribution_matrix_def get_aggregated_ranks_eq get_mapped_final_ranks_def
          mc4_distribution_def mc4_transition_def Let_def)
qed

lemma mc4_aggregator_empty:
  "frame_rows df = [] \<Longrightarrow> mc4_aggregator df = Inl ZeroDivisionError"
  by (simp add: mc4_aggregator_def get_matrix_shape_def get_ergodic_transition_matrix_def Let_def)

lemma is_frame_update:
  "is_frame n c m \<Longrightarrow> r < n \<Longrightarrow> is_frame n c (m[r := (m ! r)[i := v]])"
  unfolding is_frame_def
  by (auto dest!: subsetD [OF set_update_subset_insert])

lemma is_frame_nth: "is_frame n c m \<Longrightarrow> k < n \<Longrightarrow> length (m ! k) = c"
  by (simp add: is_frame_def)

lemma fill_positions_ok:
  assumes "i < c"
  shows "is_frame n c m \<Longrightarrow> distinct (map snd ps) \<Longrightarrow>
     \<forall>(pos, doc)\<in>set ps. 1 \<le> doc \<and> doc \<le> n \<Longrightarrow>
     \<exists>m'. fill_positions i ps m = Inr m' \<and> is_frame n c m' \<and>
        (\<forall>(pos, doc)\<in>set ps. m' ! (doc - 1) ! i = pos + 1) \<and>
        (\<forall>k<n. \<forall>j<c. (j \<noteq> i \<or> Suc k \<notin> snd ` set ps) \<longrightarrow> m' ! k ! j = m ! k ! j)"
proof (induction ps arbitrary: m)
  case Nil
  then show ?case by simp
next
  case (Cons p ps)
  obtain pos doc where p: "p = (pos, doc)" by (cases p)
  have doc: "1 \<le> doc" "doc \<le> n" using Cons.prems(3) p by auto
  let ?r = "doc - 1"
  let ?m1 = "m[?r := (m ! ?r)[i := pos + 1]]"
  have r: "?r < n" using doc by simp
  have lm: "length m = n" using Cons.prems(1) by (simp add: is_frame_def)
  have lr: "length (m ! ?r) = c" using Cons.prems(1) r by (rule is_frame_nth)
  have f1: "is_frame n c ?m1" using Cons.prems(1) r by (rule is_frame_update)
  have d: "distinct (map snd ps)" and fresh: "doc \<notin> snd ` set ps"
    using Cons.prems(2) p by auto
  have rng: "\<forall>(pos, doc)\<in>set ps. 1 \<le> doc \<and> doc \<le> n" using Cons.prems(3) by auto
  from Cons.IH [OF f1 d rng] obtain m' where
    run: "fill_positions i ps ?m1 = Inr m'"
    and fr: "is_frame n c m'"
    and vals: "\<forall>(pos, doc)\<in>set ps. m' ! (doc - 1) ! i = pos + 1"
    and keep: "\<forall>k<n. \<forall>j<c. (j \<noteq> i \<or> Suc k \<notin> snd ` set ps) \<longrightarrow> m' ! k ! j = ?m1 ! k ! j"
    by blast
  have step: "fill_positions i (p # ps) m = Inr m'"
    using run p doc r lm lr assms by (simp add: Let_def)
  have sr: "Suc ?r = doc" using doc by simp
  have here: "m' ! ?r ! i = pos + 1"
    using keep r assms fresh sr lm lr by simp
  have keep': "\<forall>k<n. \<forall>j<c. (j \<noteq> i \<or> Suc k \<notin> snd ` set (p # ps)) \<longrightarrow> m' ! k ! j = m ! k ! j"
  proof (intro allI impI)
    fix k j assume k: "k < n" and j: "j < c"
      and c: "j \<noteq> i \<or> Suc k \<notin> snd ` set (p # ps)"
    have c1: "j \<noteq> i \<or> Suc k \<notin> snd ` set ps" using c by auto
    have "m' ! k ! j = ?m1 ! k ! j" using keep k j c1 by blast
    also have "?m1 ! k ! j = m ! k ! j"
    proof (cases "k = ?r")
      case True
      then have "Suc k = doc" using sr by simp
      then have "j \<noteq> i" using c p by auto
      then show ?thesis using True lm r by simp
    next
      case False
      then show ?thesis by simp
    qed
    finally show "m' ! k ! j = m ! k ! j" .
  qed
  show ?case using step fr vals here keep' p by auto
qed

lemma fill_row:
  assumes "i < c" "is_frame n c m" "is_row n row"
  shows "\<exists>m'. fill_positions i (enumerate 0 row) m = Inr m' \<and> is_frame n c m' \<and>
           (\<forall>k<n. m' ! k ! i = position row (Suc k) + 1) \<and>
           (\<forall>k<n. \<forall>j<c. j \<noteq> i \<longrightarrow> m' ! k ! j = m ! k ! j)"
proof -
  have d: "distinct (map snd (enumerate 0 row))" using assms(3) by (simp add: is_row_def)
  have rng: "\<forall>(pos, doc)\<in>set (enumerate 0 row). 1 \<le> doc \<and> doc \<le> n"
    using assms(3) by (auto simp: is_row_def in_set_enumerate_eq)
  from fill_positions_ok [OF assms(1,2) d rng] obtain m' where
    run: "fill_positions i (enumerate 0 row) m = Inr m'"
    and fr: "is_frame n c m'"
    and vals: "\<forall>(pos, doc)\<in>set (enumerate 0 row). m' ! (doc - 1) ! i = pos + 1"
    and keep: "\<forall>k<n. \<forall>j<c. (j \<noteq> i \<or> Suc k \<notin> snd ` set (enumerate 0 row))
                 \<longrightarrow> m' ! k ! j = m ! k ! j"
    by blast
  have "\<forall>k<n. m' ! k ! i = position row (Suc k) + 1"
  proof (intro allI impI)
    fix k assume "k < n"
    then have mem: "Suc k \<in> set row" using assms(3) by (simp add: is_row_def)
    then have "(position row (Suc k), Suc k) \<in> set (enumerate 0 row)"
      by (simp add: in_set_enumerate_eq position_less nth_position)
    with vals show "m' ! k ! i = position row (Suc k) + 1" by force
  qed
  with run fr keep show ?thesis by blast
qed

lemma fill_rankings_ok:
  "is_frame n c m \<Longrightarrow> distinct (map fst irs) \<Longrightarrow>
   \<forall>(i, row)\<in>set irs. i < c \<and> is_row n row \<Longrightarrow>
   \<exists>m'. fill_rankings irs m = Inr m' \<and> is_frame n c m' \<and>
      (\<forall>(i, row)\<in>set irs. \<forall>k<n. m' ! k ! i = position row (Suc k) + 1) \<and>
      (\<forall>k<n. \<forall>j<c. j \<notin> fst ` set irs \<longrightarrow> m' ! k ! j = m ! k ! j)"
proof (induction irs arbitrary: m)
  case Nil
  then show ?case by simp
next
  case (Cons p irs)
  obtain i row where p: "p = (i, row)" by (cases p)
  have i: "i < c" and row: "is_row n row" using Cons.prems(3) p by auto
  from fill_row [OF i Cons.prems(1) row] obtain m1 where
    run1: "fill_positions i (enumerate 0 row) m = Inr m1"
    and f1: "is_frame n c m1"
    and v1: "\<forall>k<n. m1 ! k ! i = position row (Suc k) + 1"
    and k1: "\<forall>k<n. \<forall>j<c. j \<noteq> i \<longrightarrow> m1 ! k ! j = m ! k ! j"
    by blast
  have d: "distinct (map fst irs)" and fresh: "i \<notin> fst ` set irs"
    using Cons.prems(2) p by auto
  have rest: "\<forall>(i, row)\<in>set irs. i < c \<and> is_row n row" using Cons.prems(3) by auto
  from Cons.IH [OF f1 d rest] obtain m' where
    run: "fill_rankings irs m1 = Inr m'"
    and fr: "is_frame n c m'"
    and vals: "\<forall>(i, row)\<in>set irs. \<forall>k<n. m' ! k ! i = position row (Suc k) + 1"
    and keep: "\<forall>k<n. \<forall>j<c. j \<notin> fst ` set irs \<longrightarrow> m' ! k ! j = m1 ! k ! j"
    by blast
  have step: "fill_rankings (p # irs) m = Inr m'" using run1 run p by simp
  have here: "\<forall>k<n. m' ! k ! i = position row (Suc k) + 1"
    using keep fresh i v1 by simp
  have keep': "\<forall>k<n. \<forall>j<c. j \<notin> fst ` set (p # irs) \<longrightarrow> m' ! k ! j = m ! k ! j"
    using keep k1 p by auto
  show ?case using step fr vals here keep' p by auto
qed

lemma fill_rankings_rows:
  assumes "\<forall>row \<in> set rows. is_row n row"
  shows "fill_rankings (enumerate 0 rows) (replicate n (replicate (length rows) 0))
           = Inr (position_matrix n rows)"
proof -
  let ?c = "length rows"
  have f0: "is_frame n ?c (replicate n (replicate ?c 0))" by (simp add: is_frame_def)
  have d: "distinct (map fst (enumerate 0 rows))" by simp
  have ok: "\<forall>(i, row)\<in>set (enumerate 0 rows). i < ?c \<and> is_row n row"
    using assms by (auto simp: in_set_enumerate_eq)
  from fill_rankings_ok [OF f0 d ok] obtain m' where
    run: "fill_rankings (enumerate 0 rows) (replicate n (replicate ?c 0)) = Inr m'"
    and fr: "is_frame n ?c m'"
    and vals: "\<forall>(i, row)\<in>set (enumerate 0 rows). \<forall>k<n. m' ! k ! i = position row (Suc k) + 1"
    by blast
  have "m' = position_matrix n rows"
    unfolding position_matrix_def
  proof (rule nth_equalityI)
    show "length m' = length (map (\<lambda>k. map (\<lambda>i. position (rows ! i) (Suc k) + 1) [0..<?c]) [0..<n])"
      using fr by (simp add: is_frame_def)
  next
    fix k assume "k < length m'"
    then have k: "k < n" using fr by (simp add: is_frame_def)
    have "m' ! k = map (\<lambda>i. position (rows ! i) (Suc k) + 1) [0..<?c]"
    proof (rule nth_equalityI)
      show "length (m' ! k) = length (map (\<lambda>i. position (rows ! i) (Suc k) + 1) [0..<?c])"
        using is_frame_nth [OF fr k] by simp
    next
      fix i assume "i < length (m' ! k)"
      then have i: "i < ?c" using is_frame_nth [OF fr k] by simp
      then have "(i, rows ! i) \<in> set (enumerate 0 rows)" by (simp add: in_set_enumerate_eq)
      with vals k have "m' ! k ! i = position (rows ! i) (Suc k) + 1" by blast
      then show "m' ! k ! i = map (\<lambda>i. position (rows ! i) (Suc k) + 1) [0..<?c] ! i"
        using i by simp
    qed
    then show "m' ! k = map (\<lambda>k. map (\<lambda>i. position (rows ! i) (Suc k) + 1) [0..<?c]) [0..<n] ! k"
      using k by simp
  qed
  with run show ?thesis by simp
qed

lemma doc_number_nth: "distinct order \<Longrightarrow> k < length order \<Longrightarrow> doc_number order (order ! k) = Suc k"
  by (simp add: doc_number_def position_nth)

lemma doc_number_image: "distinct order \<Longrightarrow> doc_number order ` set order = {1..length order}"
proof (intro equalityI subsetI)
  fix x assume "x \<in> doc_number order ` set order"
  then obtain d where "d \<in> set order" "x = doc_number order d" by auto
  then show "x \<in> {1..length order}" using doc_number_range [of d order] by simp
next
  fix x assume d: "distinct order" and x: "x \<in> {1..length order}"
  then obtain k where k: "x = Suc k" "k < length order" by (cases x) auto
  then have "doc_number order (order ! k) = x" using d by (simp add: doc_number_nth)
  then show "x \<in> doc_number order ` set order" using k(2) by (metis imageI nth_mem)
qed

lemma mc_row_is_row:
  assumes "distinct order" "distinct rank" "set rank \<subseteq> set order"
    and "distinct padding" "set padding = set order - set rank"
  shows "is_row (length order) (map (doc_number order) (rank @ padding))"
proof -
  have d: "distinct (rank @ padding)" using assms by auto
  have s: "set (rank @ padding) = set order" using assms by auto
  have "inj_on (doc_number order) (set (rank @ padding))"
    using doc_number_inj [of order] by (simp only: s)
  then have "distinct (map (doc_number order) (rank @ padding))"
    using d distinct_map by blast
  moreover have "set (map (doc_number order) (rank @ padding)) = {1..length order}"
    using doc_number_image [OF assms(1)] by (simp only: set_map s)
  ultimately show ?thesis by (simp add: is_row_def)
qed

lemma MarkovChain_rank_by_id_eq:
  fixes rankings :: "'a list list" and iter_docs :: "'a iteration"
  defines "U \<equiv> get_unique_doc_ids rankings"
  defines "df \<equiv> \<lparr>frame_rows = position_matrix (card U) (mc_rows iter_docs rankings),
                   frame_columns = length rankings\<rparr>"
  assumes ne: "rankings \<noteq> []" and dist: "\<forall>r \<in> set rankings. distinct r"
    and it_docs: "iterates_on U iter_docs"
  shows "MarkovChain_rank_by_id iter_docs rankings =
           (if U = {} then Inl ZeroDivisionError
            else Inr (sort_key (\<lambda>x. - fst x)
                   (map (\<lambda>k. (real_of_int (int (card U) - int (dense_ranks (mc4_distribution df) ! k)),
                               iter_docs U ! k))
                      [0..<card U])))"
proof -
  let ?order = "iter_docs U"
  let ?n = "card U"
  let ?rows = "mc_rows iter_docs rankings"
  let ?mdi = "map_of (map (\<lambda>(i, docid). (docid, i)) (enumerate 1 ?order))"
  have fin: "finite U" by (simp add: U_def finite_unique_doc_ids)
  have ord: "distinct ?order" "set ?order = U"
    using iterates_onD [OF it_docs, of U] by auto
  have len: "length ?order = ?n" using ord by (metis distinct_card)
  have sub: "\<And>r. r \<in> set rankings \<Longrightarrow> set r \<subseteq> set ?order"
    using ord(2) by (auto simp: U_def get_unique_doc_ids_eq)
  have pad: "\<And>r. distinct (iter_docs (U - set r)) \<and> set (iter_docs (U - set r)) = U - set r"
    using iterates_onD [OF it_docs] by auto
  have row_ok: "\<And>r. r \<in> set rankings \<Longrightarrow>
      is_row ?n (map (doc_number ?order) (r @ iter_docs (U - set r)))"
    using mc_row_is_row [OF ord(1) _ sub] dist pad len ord(2) by metis
  have rows: "\<forall>row \<in> set ?rows. is_row ?n row"
    using row_ok by (auto simp: mc_rows_def Let_def U_def)
  have nrows: "length ?rows = length rankings" by (simp add: mc_rows_def Let_def)
  have zipped: "zip rankings (map (\<lambda>rank. iter_docs (U - set rank)) rankings)
      = map (\<lambda>r. (r, iter_docs (U - set r))) rankings"
    by (induction rankings) auto
  have build: "traverse
        (\<lambda>(rank, padding).
            case traverse (lookup ?mdi) rank of
              Inl e \<Rightarrow> Inl e
            | Inr rank_ids \<Rightarrow>
                (case traverse (lookup ?mdi) padding of
                   Inl e \<Rightarrow> Inl e
                 | Inr padding_ids \<Rightarrow> assign_row ?n (rank_ids @ padding_ids)))
        (zip rankings (map (\<lambda>rank. iter_docs (U - set rank)) rankings))
      = Inr ?rows"
  proof -
    have "traverse
        (\<lambda>(rank, padding).
            case traverse (lookup ?mdi) rank of
              Inl e \<Rightarrow> Inl e
            | Inr rank_ids \<Rightarrow>
                (case traverse (lookup ?mdi) padding of
                   Inl e \<Rightarrow> Inl e
                 | Inr padding_ids \<Rightarrow> assign_row ?n (rank_ids @ padding_ids)))
        (map (\<lambda>r. (r, iter_docs (U - set r))) rankings)
      = Inr (map (\<lambda>(rank, padding). map (doc_number ?order) (rank @ padding))
               (map (\<lambda>r. (r, iter_docs (U - set r))) rankings))"
    proof (rule traverse_map)
      fix x assume "x \<in> set (map (\<lambda>r. (r, iter_docs (U - set r))) rankings)"
      then obtain r where r: "r \<in> set rankings" and x: "x = (r, iter_docs (U - set r))" by auto
      have t1: "traverse (lookup ?mdi) r = Inr (map (doc_number ?order) r)"
        using traverse_doc_ids [OF ord(1) sub [OF r]] .
      have "set (iter_docs (U - set r)) \<subseteq> set ?order" using pad ord(2) by auto
      then have t2: "traverse (lookup ?mdi) (iter_docs (U - set r))
                       = Inr (map (doc_number ?order) (iter_docs (U - set r)))"
        using traverse_doc_ids [OF ord(1)] by blast
      show "(case x of (rank, padding) \<Rightarrow>
            case traverse (lookup ?mdi) rank of
              Inl e \<Rightarrow> Inl e
            | Inr rank_ids \<Rightarrow>
                (case traverse (lookup ?mdi) padding of
                   Inl e \<Rightarrow> Inl e
                 | Inr padding_ids \<Rightarrow> assign_row ?n (rank_ids @ padding_ids)))
          = Inr (case x of (rank, padding) \<Rightarrow> map (doc_number ?order) (rank @ padding))"
        using t1 t2 is_row_length [OF row_ok [OF r]] x by (simp add: assign_row_def)
    qed
    moreover have "map (\<lambda>(rank, padding). map (doc_number ?order) (rank @ padding))
               (map (\<lambda>r. (r, iter_docs (U - set r))) rankings) = ?rows"
      by (simp add: mc_rows_def Let_def U_def comp_def)
    ultimately show ?thesis by (simp only: zipped)
  qed
  have fill: "fill_rankings (enumerate 0 ?rows) (replicate ?n (replicate (length rankings) 0))
        = Inr (position_matrix ?n ?rows)"
    using fill_rankings_rows [OF rows] nrows by simp
  have fr: "frame_rows df = position_matrix ?n ?rows" by (simp add: df_def)
  have lfr: "length (frame_rows df) = ?n" by (simp add: fr position_matrix_def)
  show ?thesis
  proof (cases "U = {}")
    case True
    then have "frame_rows df = []" using lfr by simp
    then have "mc4_aggregator df = Inl ZeroDivisionError" by (rule mc4_aggregator_empty)
    then show ?thesis
      unfolding MarkovChain_rank_by_id_def Let_def U_def [symmetric]
      using ne build fill True by (simp add: df_def)
  next
    case False
    then have npos: "?n \<noteq> 0" using fin by simp
    then have "frame_rows df \<noteq> []" using lfr by auto
    then have mc4: "mc4_aggregator df = Inr (zip [0..<?n] (dense_ranks (mc4_distribution df)))"
      using mc4_aggregator_eq [of df] lfr by simp
    let ?dr = "dense_ranks (mc4_distribution df)"
    have ldr: "length ?dr = ?n"
      by (simp add: dense_ranks_def mc4_distribution_length lfr)
    have out: "traverse
          (\<lambda>(item, rank).
              case lookup (map_of (enumerate 1 ?order)) (item + 1) of
                Inl e \<Rightarrow> Inl e
              | Inr docid \<Rightarrow> Inr (real_of_int (int ?n - int rank), docid))
          (zip [0..<?n] ?dr)
        = Inr (map (\<lambda>(item, rank). (real_of_int (int ?n - int rank), ?order ! item))
                 (zip [0..<?n] ?dr))"
    proof (rule traverse_map)
      fix x assume x: "x \<in> set (zip [0..<?n] ?dr)"
      obtain item rk where p: "x = (item, rk)" by (cases x)
      then have "item < ?n" using x by (auto dest: set_zip_leftD)
      then have "map_of (enumerate 1 ?order) (Suc item) = Some (?order ! item)"
        using map_ids_doc_lookup [of item ?order] len by simp
      then show "(case x of (item, rank) \<Rightarrow>
              (case lookup (map_of (enumerate 1 ?order)) (item + 1) of
                Inl e \<Rightarrow> Inl e
              | Inr docid \<Rightarrow> Inr (real_of_int (int ?n - int rank), docid)))
          = Inr (case x of (item, rank) \<Rightarrow> (real_of_int (int ?n - int rank), ?order ! item))"
        using p by (simp add: lookup_def)
    qed
    have shape: "map (\<lambda>(item, rank). (real_of_int (int ?n - int rank), ?order ! item))
                 (zip [0..<?n] ?dr)
        = map (\<lambda>k. (real_of_int (int ?n - int (?dr ! k)), ?order ! k)) [0..<?n]"
      by (rule nth_equalityI) (simp_all add: ldr)
    show ?thesis
      unfolding MarkovChain_rank_by_id_def Let_def U_def [symmetric]
      using ne build fill mc4 out shape False by (simp add: df_def [symmetric])
  qed
qed

subsection \<open>Order of the Borda output, coverage of the universe\<close>

lemma order_AB: "listing [''A'', ''B''] (set [''A'', ''B'']) = [''A'', ''B'']"
  by (simp add: listing_def)

lemma upt2: "[0..<2] = [0, Suc 0]" "[1..<3] = [1, 2]"
  by (simp_all add: upt_rec)

text \<open>
  Claim C4, as stated (equal totals: the smaller document number first), does
  not follow from the code. On the two rankings \<open>A, B\<close> and \<open>B, A\<close> both
  documents total \<open>1\<close>. With a sort that keeps equal values in index order
  (what an insertion sort of a short array does) the output lists the document
  numbered 2 before the document numbered 1, whichever of the two orders the set
  of documents is enumerated in; with a sort that returns equal values in
  descending index order the same call lists number 1 first. Both sorts meet all
  that \<^verbatim>\<open>argsort\<close> with its default kind promises.
\<close>

theorem borda_ties_counterexample:
  "sorts_ascending argsort_stable
   \<and> BordaCount_rank_by_id argsort_stable (listing [''A'', ''B'']) (listing [1, 2])
        [[''A'', ''B''], [''B'', ''A'']]
     = Inr [(1, ''B''), (1, ''A'')]
   \<and> doc_number (listing [''A'', ''B''] (get_unique_doc_ids [[''A'', ''B''], [''B'', ''A'']])) ''B'' = 2
   \<and> doc_number (listing [''A'', ''B''] (get_unique_doc_ids [[''A'', ''B''], [''B'', ''A'']])) ''A'' = 1
   \<and> BordaCount_rank_by_id argsort_stable (listing [''B'', ''A'']) (listing [1, 2])
        [[''A'', ''B''], [''B'', ''A'']]
     = Inr [(1, ''A''), (1, ''B'')]
   \<and> doc_number (listing [''B'', ''A''] (get_unique_doc_ids [[''A'', ''B''], [''B'', ''A'']])) ''A'' = 2
   \<and> doc_number (listing [''B'', ''A''] (get_unique_doc_ids [[''A'', ''B''], [''B'', ''A'']])) ''B'' = 1
   \<and> sorts_ascending argsort_ties_reversed
   \<and> BordaCount_rank_by_id argsort_ties_reversed (listing [''A'', ''B'']) (listing [1, 2])
        [[''A'', ''B''], [''B'', ''A'']]
     = Inr [(1, ''A''), (1, ''B'')]"
proof -
  have U: "get_unique_doc_ids [[''A'', ''B''], [''B'', ''A'']] = set [''A'', ''B'']"
    by (auto simp: get_unique_doc_ids_eq)
  have U': "set [''A'', ''B''] = set [''B'', ''A'']" by auto
  have c: "card (set [''A'', ''B'']) = 2" by simp
  have i1: "iterates_on (get_unique_doc_ids [[''A'', ''B''], [''B'', ''A'']]) (listing [''A'', ''B''])"
    unfolding U by (rule iterates_on_listing) simp
  have i1': "iterates_on (get_unique_doc_ids [[''A'', ''B''], [''B'', ''A'']]) (listing [''B'', ''A''])"
    unfolding U U' by (rule iterates_on_listing) simp
  have "{1..2::nat} = set [1, 2]" by auto
  then have i2: "iterates_on {1..card (get_unique_doc_ids [[''A'', ''B''], [''B'', ''A'']])} (listing [1, 2::nat])"
    unfolding U c using iterates_on_listing [of "[1, 2::nat]"] by simp
  have rows: "borda_rows (listing [''A'', ''B'']) (listing [1, 2]) [[''A'', ''B''], [''B'', ''A'']]
                = [[1, 2], [2, 1]]"
    by (simp add: borda_rows_def U listing_def doc_number_def position_def)
  have rows': "borda_rows (listing [''B'', ''A'']) (listing [1, 2]) [[''A'', ''B''], [''B'', ''A'']]
                = [[2, 1], [1, 2]]"
    by (simp add: borda_rows_def U listing_def doc_number_def position_def)
  have order': "listing [''B'', ''A''] (set [''A'', ''B'']) = [''B'', ''A'']"
    by (simp add: listing_def)
  have tot: "borda_totals 2 [[1, 2], [2, 1]] = [1, 1]"
    by (simp add: borda_totals_def position_def upt2)
  have tot': "borda_totals 2 [[2, 1], [1, 2]] = [1, 1]"
    by (simp add: borda_totals_def position_def upt2)
  have srt: "argsort_stable [1, 1] = [0, 1]"
    by (simp add: argsort_stable_def upt2)
  have srt': "argsort_ties_reversed [1, 1] = [1, 0]"
    by (simp add: argsort_ties_reversed_def upt2)
  have ne: "[[''A'', ''B''], [''B'', ''A'']] \<noteq> []" by simp
  have di: "\<forall>r \<in> set [[''A'', ''B''], [''B'', ''A'']]. distinct r" by simp
  have out: "BordaCount_rank_by_id argsort_stable (listing [''A'', ''B'']) (listing [1, 2])
               [[''A'', ''B''], [''B'', ''A'']] = Inr [(1, ''B''), (1, ''A'')]"
    unfolding BordaCount_rank_by_id_eq [OF sorts_ascending_stable ne di i1 i2]
    by (simp only: U c rows tot srt order_AB) simp
  have out': "BordaCount_rank_by_id argsort_stable (listing [''B'', ''A'']) (listing [1, 2])
               [[''A'', ''B''], [''B'', ''A'']] = Inr [(1, ''A''), (1, ''B'')]"
    unfolding BordaCount_rank_by_id_eq [OF sorts_ascending_stable ne di i1' i2]
    by (simp only: U c rows' tot' srt order') simp
  have out'': "BordaCount_rank_by_id argsort_ties_reversed (listing [''A'', ''B'']) (listing [1, 2])
               [[''A'', ''B''], [''B'', ''A'']] = Inr [(1, ''A''), (1, ''B'')]"
    unfolding BordaCount_rank_by_id_eq [OF sorts_ascending_ties_reversed ne di i1 i2]
    by (simp only: U c rows tot srt' order_AB) simp
  have num: "doc_number (listing [''A'', ''B''] (get_unique_doc_ids [[''A'', ''B''], [''B'', ''A'']])) ''B'' = 2
     \<and> doc_number (listing [''A'', ''B''] (get_unique_doc_ids [[''A'', ''B''], [''B'', ''A'']])) ''A'' = 1
     \<and> doc_number (listing [''B'', ''A''] (get_unique_doc_ids [[''A'', ''B''], [''B'', ''A'']])) ''A'' = 2
     \<and> doc_number (listing [''B'', ''A''] (get_unique_doc_ids [[''A'', ''B''], [''B'', ''A'']])) ''B'' = 1"
    by (simp add: U listing_def doc_number_def position_def)
  from out out' out'' num sorts_ascending_stable sorts_ascending_ties_reversed
  show ?thesis by blast
qed

text \<open>
  Claim C4, amended: for a non-empty list of duplicate-free rankings and every
  sort that meets the contract of \<^verbatim>\<open>argsort\<close>, the Borda output is in
  descending order of total score; the documents appear in the reverse of the
  order in which the sort returns their indices, so the order among documents
  of equal total is the reverse of whatever the sort does with equal values,
  and no order by document number is fixed by the code; the score of a document
  is the sum over the padded rankings of \<open>ndoc - (position + 1)\<close>.
\<close>

theorem borda_descending_scores:
  fixes rankings :: "'a list list"
  assumes "sorts_ascending argsort"
    and "rankings \<noteq> []" and "\<forall>r \<in> set rankings. distinct r"
    and "iterates_on (get_unique_doc_ids rankings) iter_docs"
    and "iterates_on {1..card (get_unique_doc_ids rankings)} iter_ids"
  shows "case BordaCount_rank_by_id argsort iter_docs iter_ids rankings of
           Inl e \<Rightarrow> False
         | Inr out \<Rightarrow>
             sorted_wrt (\<lambda>(s, d) (s', d'). s \<ge> s') out
             \<and> map (\<lambda>(s, d). doc_number (iter_docs (get_unique_doc_ids rankings)) d) out
                 = rev (map Suc (argsort (borda_totals (card (get_unique_doc_ids rankings))
                                            (borda_rows iter_docs iter_ids rankings))))
             \<and> (\<forall>(s, d) \<in> set out.
                   s = real_of_int
                         (borda_totals (card (get_unique_doc_ids rankings))
                            (borda_rows iter_docs iter_ids rankings)
                          ! (doc_number (iter_docs (get_unique_doc_ids rankings)) d - 1)))"
proof -
  let ?U = "get_unique_doc_ids rankings"
  let ?order = "iter_docs ?U"
  let ?n = "card ?U"
  let ?data = "borda_totals ?n (borda_rows iter_docs iter_ids rankings)"
  let ?f = "\<lambda>k. (real_of_int (?data ! k), ?order ! k)"
  let ?P = "\<lambda>(s::real, d::'a) (s'::real, d'::'a). s \<ge> s'"
  have ord: "distinct ?order" "set ?order = ?U"
    using iterates_onD [OF assms(4), of ?U] by auto
  have len: "length ?order = ?n" using ord by (metis distinct_card)
  have ld: "length ?data = ?n" by (simp add: borda_totals_def)
  have out: "BordaCount_rank_by_id argsort iter_docs iter_ids rankings
               = Inr (map ?f (rev (argsort ?data)))"
    using BordaCount_rank_by_id_eq [OF assms] .
  have num: "\<And>k. k \<in> set (argsort ?data) \<Longrightarrow> doc_number ?order (?order ! k) = Suc k"
    using ord(1) ld len by (simp add: argsort_set [OF assms(1)] doc_number_nth)
  have "sorted_wrt (\<lambda>a b. ?data ! a \<le> ?data ! b) (argsort ?data)"
    using argsort_sorted [OF assms(1), of ?data] by (simp add: sorted_wrt_map)
  then have "sorted_wrt (\<lambda>a b. ?P (?f b) (?f a)) (argsort ?data)"
    by (rule sorted_wrt_mono_rel [rotated]) simp
  then have s: "sorted_wrt ?P (map ?f (rev (argsort ?data)))"
    by (simp only: sorted_wrt_map sorted_wrt_rev)
  have m: "map (\<lambda>(s, d). doc_number ?order d) (map ?f (rev (argsort ?data)))
             = rev (map Suc (argsort ?data))"
    using num by (simp add: rev_map)
  have t: "\<forall>(s, d) \<in> set (map ?f (rev (argsort ?data))).
             s = real_of_int (?data ! (doc_number ?order d - 1))"
    using num by auto
  show ?thesis unfolding out using s m t by simp
qed

lemma borda_output_docs:
  fixes rankings :: "'a list list"
  assumes "sorts_ascending argsort"
    and "rankings \<noteq> []" and "\<forall>r \<in> set rankings. distinct r"
    and "iterates_on (get_unique_doc_ids rankings) iter_docs"
    and "iterates_on {1..card (get_unique_doc_ids rankings)} iter_ids"
  shows "\<exists>out. BordaCount_rank_by_id argsort iter_docs iter_ids rankings = Inr out
           \<and> mset (map snd out) = mset (iter_docs (get_unique_doc_ids rankings))"
proof -
  let ?U = "get_unique_doc_ids rankings"
  let ?order = "iter_docs ?U"
  let ?data = "borda_totals (card ?U) (borda_rows iter_docs iter_ids rankings)"
  let ?f = "\<lambda>k. (real_of_int (?data ! k), ?order ! k)"
  have ord: "distinct ?order" "set ?order = ?U"
    using iterates_onD [OF assms(4), of ?U] by auto
  have len: "length ?order = card ?U" using ord by (metis distinct_card)
  have ld: "length ?data = length ?order" by (simp add: borda_totals_def len)
  have "map snd (map ?f (rev (argsort ?data))) = map ((!) ?order) (rev (argsort ?data))"
    by simp
  moreover have "mset (map ((!) ?order) (rev (argsort ?data))) = mset (map ((!) ?order) [0..<length ?order])"
    by (simp add: argsort_perm [OF assms(1)] ld)
  ultimately have "mset (map snd (map ?f (rev (argsort ?data)))) = mset ?order"
    by (simp only: map_nth)
  then show ?thesis using BordaCount_rank_by_id_eq [OF assms] by blast
qed

lemma markov_output_docs:
  fixes rankings :: "'a list list"
  assumes "rankings \<noteq> []" and "\<forall>r \<in> set rankings. distinct r"
    and "iterates_on (get_unique_doc_ids rankings) iter_docs"
    and "get_unique_doc_ids rankings \<noteq> {}"
  shows "\<exists>out. MarkovChain_rank_by_id iter_docs rankings = Inr out
           \<and> mset (map snd out) = mset (iter_docs (get_unique_doc_ids rankings))"
proof -
  let ?U = "get_unique_doc_ids rankings"
  let ?order = "iter_docs ?U"
  have ord: "distinct ?order" "set ?order = ?U"
    using iterates_onD [OF assms(3), of ?U] by auto
  have len: "length ?order = card ?U" using ord by (metis distinct_card)
  define g :: "nat \<Rightarrow> real"
    where "g = (\<lambda>k. real_of_int (int (card ?U) - int (dense_ranks (mc4_distribution
         \<lparr>frame_rows = position_matrix (card ?U) (mc_rows iter_docs rankings),
          frame_columns = length rankings\<rparr>) ! k)))"
  have out: "MarkovChain_rank_by_id iter_docs rankings
      = Inr (sort_key (\<lambda>x. - fst x) (map (\<lambda>k. (g k, ?order ! k)) [0..<card ?U]))"
    using MarkovChain_rank_by_id_eq [OF assms(1,2,3)] assms(4) by (simp add: g_def)
  have "mset (map snd (sort_key (\<lambda>x. - fst x) (map (\<lambda>k. (g k, ?order ! k)) [0..<card ?U])))
      = mset (map snd (map (\<lambda>k. (g k, ?order ! k)) [0..<card ?U]))"
    by (simp only: mset_map mset_sort)
  also have "map snd (map (\<lambda>k. (g k, ?order ! k)) [0..<card ?U]) = map ((!) ?order) [0..<length ?order]"
    by (simp add: len)
  finally have "mset (map snd (sort_key (\<lambda>x. - fst x) (map (\<lambda>k. (g k, ?order ! k)) [0..<card ?U])))
      = mset ?order"
    by (simp only: map_nth)
  with out show ?thesis by blast
qed

text \<open>
  Coverage of the universe. For a non-empty list of duplicate-free rankings,
  Borda count returns exactly one pair per document of the universe (the output
  has the size of the universe and its ids are the universe, without
  repetition), whatever the sort does with equal totals; the Markov chain
  strategy does so when the universe is not empty.
\<close>

lemma aggregation_covers_universe:
  fixes rankings :: "'a list list"
  assumes "sorts_ascending argsort"
    and "rankings \<noteq> []" and "\<forall>r \<in> set rankings. distinct r"
    and "iterates_on (get_unique_doc_ids rankings) iter_docs"
    and "iterates_on {1..card (get_unique_doc_ids rankings)} iter_ids"
  shows "(case BordaCount_rank_by_id argsort iter_docs iter_ids rankings of
            Inl e \<Rightarrow> False
          | Inr out \<Rightarrow> length out = card (get_unique_doc_ids rankings)
                       \<and> distinct (map snd out)
                       \<and> set (map snd out) = get_unique_doc_ids rankings)
       \<and> (get_unique_doc_ids rankings \<noteq> {} \<longrightarrow>
           (case MarkovChain_rank_by_id iter_docs rankings of
              Inl e \<Rightarrow> False
            | Inr out \<Rightarrow> length out = card (get_unique_doc_ids rankings)
                         \<and> distinct (map snd out)
                         \<and> set (map snd out) = get_unique_doc_ids rankings))"
proof -
  let ?U = "get_unique_doc_ids rankings"
  let ?order = "iter_docs ?U"
  have ord: "distinct ?order" "set ?order = ?U"
    using iterates_onD [OF assms(4), of ?U] by auto
  have len: "length ?order = card ?U" using ord by (metis distinct_card)
  have perm: "\<And>out :: (real \<times> 'a) list. mset (map snd out) = mset ?order \<Longrightarrow>
      length out = card ?U \<and> distinct (map snd out) \<and> set (map snd out) = ?U"
  proof -
    fix out :: "(real \<times> 'a) list" assume m: "mset (map snd out) = mset ?order"
    have "length (map snd out) = length ?order" using m by (rule mset_eq_length)
    moreover have "distinct (map snd out)" using m ord(1) by (metis mset_eq_imp_distinct_iff)
    moreover have "set (map snd out) = ?U" using m ord(2) by (metis mset_eq_setD)
    ultimately show "length out = card ?U \<and> distinct (map snd out) \<and> set (map snd out) = ?U"
      using len by simp
  qed
  from borda_output_docs [OF assms] obtain out where
    "BordaCount_rank_by_id argsort iter_docs iter_ids rankings = Inr out"
    "mset (map snd out) = mset ?order" by blast
  then have b: "case BordaCount_rank_by_id argsort iter_docs iter_ids rankings of
            Inl e \<Rightarrow> False
          | Inr out \<Rightarrow> length out = card ?U \<and> distinct (map snd out) \<and> set (map snd out) = ?U"
    using perm by simp
  have m: "?U \<noteq> {} \<longrightarrow>
           (case MarkovChain_rank_by_id iter_docs rankings of
              Inl e \<Rightarrow> False
            | Inr out \<Rightarrow> length out = card ?U \<and> distinct (map snd out) \<and> set (map snd out) = ?U)"
  proof
    assume "?U \<noteq> {}"
    from markov_output_docs [OF assms(2,3,4) this] obtain out where
      "MarkovChain_rank_by_id iter_docs rankings = Inr out"
      "mset (map snd out) = mset ?order" by blast
    then show "case MarkovChain_rank_by_id iter_docs rankings of
              Inl e \<Rightarrow> False
            | Inr out \<Rightarrow> length out = card ?U \<and> distinct (map snd out) \<and> set (map snd out) = ?U"
      using perm by simp
  qed
  from b m show ?thesis by blast
qed

text \<open>Both strategies on the partial rankings \<open>A, B\<close> and \<open>C\<close>.\<close>

lemma aggregation_covers_universe_example:
  "(case BordaCount_rank_by_id argsort_stable (listing [''A'', ''B'', ''C'']) (listing [1, 2, 3])
              [[''A'', ''B''], [''C'']] of
         Inl e \<Rightarrow> False
       | Inr out \<Rightarrow> length out = card (get_unique_doc_ids [[''A'', ''B''], [''C'']])
                    \<and> distinct (map snd out)
                    \<and> set (map snd out) = get_unique_doc_ids [[''A'', ''B''], [''C'']])
   \<and> (case MarkovChain_rank_by_id (listing [''A'', ''B'', ''C'']) [[''A'', ''B''], [''C'']] of
         Inl e \<Rightarrow> False
       | Inr out \<Rightarrow> length out = card (get_unique_doc_ids [[''A'', ''B''], [''C'']])
                    \<and> distinct (map snd out)
                    \<and> set (map snd out) = get_unique_doc_ids [[''A'', ''B''], [''C'']])"
proof -
  have U: "get_unique_doc_ids [[''A'', ''B''], [''C'']] = set [''A'', ''B'', ''C'']"
    by (auto simp: get_unique_doc_ids_eq)
  have c: "card (set [''A'', ''B'', ''C'']) = 3" by simp
  have h1: "[[''A'', ''B''], [''C'']] \<noteq> []" by simp
  have h2: "\<forall>r \<in> set [[''A'', ''B''], [''C'']]. distinct r" by simp
  have h3: "iterates_on (get_unique_doc_ids [[''A'', ''B''], [''C'']]) (listing [''A'', ''B'', ''C''])"
    unfolding U by (rule iterates_on_listing) simp
  have "{1..3::nat} = set [1, 2, 3]" by auto
  then have h4: "iterates_on {1..card (get_unique_doc_ids [[''A'', ''B''], [''C'']])}
                   (listing [1, 2, 3::nat])"
    unfolding U c using iterates_on_listing [of "[1, 2, 3::nat]"] by simp
  have h5: "get_unique_doc_ids [[''A'', ''B''], [''C'']] \<noteq> {}" unfolding U by simp
  from aggregation_covers_universe [OF sorts_ascending_stable h1 h2 h3 h4] h5
  show ?thesis by blast
qed

text \<open>
  Claim C10 (both strategies return one pair per document of the universe).
  On the one-element list holding the empty ranking the universe is empty, and
  \<^verbatim>\<open>MarkovChain.rank_by_id\<close> does not return: \<^verbatim>\<open>get_ergodic_transition_matrix\<close>
  divides \<^verbatim>\<open>erg_number\<close> by \<^verbatim>\<open>items = 0\<close> and raises
  \<^verbatim>\<open>ZeroDivisionError\<close>. The claim asks for the empty fused ranking there, which
  is what \<^verbatim>\<open>BordaCount.rank_by_id\<close> returns.
\<close>

theorem markov_empty_universe_raises:
  "MarkovChain_rank_by_id (listing ([]::string list)) [[]] = Inl ZeroDivisionError"
proof -
  have U: "get_unique_doc_ids [[]::string list] = {}" by (simp add: get_unique_doc_ids_eq)
  have it: "iterates_on (get_unique_doc_ids [[]::string list]) (listing [])"
    unfolding U by (simp add: iterates_on_def listing_def)
  show ?thesis
    using MarkovChain_rank_by_id_eq [OF _ _ it] U by simp
qed

lemma upt4: "[0..<4] = [0, Suc 0, 2, 3]"
  by (simp add: upt_rec)

lemma order_1234: "listing [1, 2, 3, 4::nat] (set [1, 2, 3, 4]) = [1, 2, 3, 4]"
  by (simp add: listing_def)

text \<open>
  The amended claim C4 on the rankings \<open>1, 2, 3, 4\<close> and \<open>2, 1, 4, 3\<close>, with
  the sort that returns equal values in descending index order: the totals are
  \<open>5, 5, 1, 1\<close>, the sort returns the indices \<open>3, 2, 1, 0\<close>, and the
  output lists the documents \<open>1, 2, 3, 4\<close> in this order.
\<close>

theorem borda_descending_scores_witness:
  "sorts_ascending argsort_ties_reversed
   \<and> [[1, 2, 3, 4], [2, 1, 4, 3::nat]] \<noteq> []
   \<and> distinct [1, 2, 3, 4::nat] \<and> distinct [2, 1, 4, 3::nat]
   \<and> iterates_on (get_unique_doc_ids [[1, 2, 3, 4], [2, 1, 4, 3::nat]]) (listing [1, 2, 3, 4])
   \<and> iterates_on {1..card (get_unique_doc_ids [[1, 2, 3, 4], [2, 1, 4, 3::nat]])} (listing [1, 2, 3, 4])
   \<and> BordaCount_rank_by_id argsort_ties_reversed (listing [1, 2, 3, 4]) (listing [1, 2, 3, 4])
        [[1, 2, 3, 4], [2, 1, 4, 3::nat]]
       = Inr [(5, 1), (5, 2), (1, 3), (1, 4)]
   \<and> (case BordaCount_rank_by_id argsort_ties_reversed (listing [1, 2, 3, 4]) (listing [1, 2, 3, 4])
              [[1, 2, 3, 4], [2, 1, 4, 3::nat]] of
         Inl e \<Rightarrow> False
       | Inr out \<Rightarrow>
           sorted_wrt (\<lambda>(s, d) (s', d'). s \<ge> s') out
           \<and> map (\<lambda>(s, d). doc_number (listing [1, 2, 3, 4]
                                (get_unique_doc_ids [[1, 2, 3, 4], [2, 1, 4, 3::nat]])) d) out
               = rev (map Suc (argsort_ties_reversed
                         (borda_totals (card (get_unique_doc_ids [[1, 2, 3, 4], [2, 1, 4, 3::nat]]))
                            (borda_rows (listing [1, 2, 3, 4]) (listing [1, 2, 3, 4])
                               [[1, 2, 3, 4], [2, 1, 4, 3::nat]]))))
           \<and> (\<forall>(s, d) \<in> set out.
                 s = real_of_int
                       (borda_totals (card (get_unique_doc_ids [[1, 2, 3, 4], [2, 1, 4, 3::nat]]))
                          (borda_rows (listing [1, 2, 3, 4]) (listing [1, 2, 3, 4])
                             [[1, 2, 3, 4], [2, 1, 4, 3::nat]])
                        ! (doc_number (listing [1, 2, 3, 4]
                             (get_unique_doc_ids [[1, 2, 3, 4], [2, 1, 4, 3::nat]])) d - 1))))"
proof -
  let ?rs = "[[1, 2, 3, 4], [2, 1, 4, 3::nat]]"
  have U: "get_unique_doc_ids ?rs = set [1, 2, 3, 4]"
    by (auto simp: get_unique_doc_ids_eq)
  have c: "card (set [1, 2, 3, 4::nat]) = 4" by simp
  have h0: "sorts_ascending argsort_ties_reversed" by (rule sorts_ascending_ties_reversed)
  have h1: "?rs \<noteq> []" by simp
  have h2: "\<forall>r \<in> set ?rs. distinct r" by simp
  have h2': "distinct [1, 2, 3, 4::nat] \<and> distinct [2, 1, 4, 3::nat]" by simp
  have h3: "iterates_on (get_unique_doc_ids ?rs) (listing [1, 2, 3, 4])"
    unfolding U by (rule iterates_on_listing) simp
  have "{1..4::nat} = set [1, 2, 3, 4]" by auto
  then have h4: "iterates_on {1..card (get_unique_doc_ids ?rs)} (listing [1, 2, 3, 4::nat])"
    unfolding U c using iterates_on_listing [of "[1, 2, 3, 4::nat]"] by simp
  have rows: "borda_rows (listing [1, 2, 3, 4]) (listing [1, 2, 3, 4]) ?rs
                = [[1, 2, 3, 4], [2, 1, 4, 3]]"
    unfolding borda_rows_def Let_def U
    by (simp add: listing_def doc_number_def position_def)
  have tot: "borda_totals 4 [[1, 2, 3, 4], [2, 1, 4, 3]] = [5, 5, 1, 1]"
    by (simp add: borda_totals_def position_def upt4)
  have srt: "argsort_ties_reversed [5, 5, 1, 1] = [3, 2, 1, 0]"
    by (simp add: argsort_ties_reversed_def upt4)
  have out: "BordaCount_rank_by_id argsort_ties_reversed (listing [1, 2, 3, 4]) (listing [1, 2, 3, 4]) ?rs
               = Inr [(5, 1), (5, 2), (1, 3), (1, 4)]"
    unfolding BordaCount_rank_by_id_eq [OF h0 h1 h2 h3 h4]
    by (simp only: U c rows tot srt order_1234) simp
  from borda_descending_scores [OF h0 h1 h2 h3 h4] h0 h1 h2' h3 h4 out
  show ?thesis by blast
qed


subsection \<open>A single ranking: Borda count\<close>

lemma sort_key_unique:
  fixes f :: "'a \<Rightarrow> 'k::linorder"
  assumes "sorted (map f ys)" "distinct (map f ys)" "mset xs = mset ys"
  shows "sort_key f xs = ys"
proof -
  have s: "set xs = set ys" using assms(3) by (rule mset_eq_setD)
  have inj: "inj_on f (set ys)" using assms(2) by (simp add: distinct_map)
  have "mset (map f (sort_key f xs)) = mset (map f ys)" using assms(3) by simp
  moreover have "sorted (map f (sort_key f xs))" by simp
  ultimately have "map f (sort_key f xs) = map f ys"
    using assms(1) by (metis properties_for_sort)
  moreover have "inj_on f (set (sort_key f xs) \<union> set ys)" using inj s by simp
  ultimately show ?thesis by (simp add: inj_on_map_eq_map)
qed

lemma position_map_inj:
  "inj_on f (insert x (set xs)) \<Longrightarrow> position (map f xs) (f x) = position xs x"
  unfolding position_def by (induction xs) (auto simp: inj_on_def)

lemma ranking_indices:
  assumes "distinct order" "distinct r" "set r = set order"
  defines "ks \<equiv> map (position order) r"
  shows "map ((!) order) ks = r"
    and "mset ks = mset [0..<length order]"
    and "\<And>p. p < length r \<Longrightarrow> position r (order ! (ks ! p)) = p"
    and "length r = length order"
proof -
  have again: "\<And>d. d \<in> set r \<Longrightarrow> order ! position order d = d"
    using assms(3) by (simp add: nth_position)
  show r: "map ((!) order) ks = r"
    unfolding ks_def by (rule nth_equalityI) (simp_all add: again)
  have len: "length r = length order"
    using assms(1,2,3) by (metis distinct_card)
  then show "length r = length order" .
  have d: "distinct ks"
    unfolding ks_def using assms(2,3)
    by (auto simp: distinct_map inj_on_def dest: position_inj)
  have "set ks \<subseteq> {0..<length order}"
    unfolding ks_def using assms(3) by (auto simp: position_less)
  moreover have "card (set ks) = length order"
  proof -
    have "card (set ks) = length ks" using d by (rule distinct_card)
    then show ?thesis using len by (simp add: ks_def)
  qed
  ultimately have "set ks = {0..<length order}"
    by (simp add: card_subset_eq)
  then show "mset ks = mset [0..<length order]"
    using d by (metis distinct_upt set_eq_iff_mset_eq_distinct set_upt)
  fix p assume p: "p < length r"
  have "order ! (ks ! p) = r ! p"
    using r p by (metis length_map nth_map)
  then show "position r (order ! (ks ! p)) = p"
    using assms(2) p by (simp add: position_nth)
qed

lemma iterates_on_empty: "iterates_on U iter \<Longrightarrow> iter {} = []"
  using iterates_onD [of U iter "{}"] by simp

lemma unique_doc_ids_single: "get_unique_doc_ids [r] = set r"
  by (simp add: get_unique_doc_ids_eq)

lemma strictly_decreasing_sorted:
  fixes g :: "nat \<Rightarrow> 'k::linorder"
  assumes "\<And>p q. p < q \<Longrightarrow> q < n \<Longrightarrow> g q < g p"
  shows "sorted_wrt (<) (rev (map g [0..<n]))"
proof -
  have "sorted_wrt (\<lambda>x y. g y < g x) [0..<n]"
    by (rule sorted_wrt_mono_rel [OF _ sorted_wrt_upt]) (use assms in auto)
  then show ?thesis by (simp add: sorted_wrt_rev sorted_wrt_map)
qed

lemma single_row_position:
  assumes "distinct order" "set r = set order" "k < length order"
  shows "position (map (doc_number order) r) (Suc k) = position r (order ! k)"
proof -
  have "inj_on (doc_number order) (insert (order ! k) (set r))"
    using doc_number_inj [of order] assms(2,3) by (simp add: insert_absorb)
  then have "position (map (doc_number order) r) (doc_number order (order ! k))
               = position r (order ! k)"
    by (rule position_map_inj)
  then show ?thesis using assms(1,3) by (simp add: doc_number_nth)
qed

lemma argsort_unique:
  assumes "sorts_ascending argsort"
    and "sorted (map ((!) data) ys)" and "distinct (map ((!) data) ys)"
    and "mset [0..<length data] = mset ys"
  shows "argsort data = ys"
proof -
  have "mset (argsort data) = mset ys"
    using argsort_perm [OF assms(1), of data] assms(4) by simp
  with assms(2,3) have "sort_key ((!) data) (argsort data) = ys"
    by (rule sort_key_unique)
  moreover have "sort_key ((!) data) (argsort data) = argsort data"
    using argsort_sorted [OF assms(1), of data] by (simp add: sort_key_id_if_sorted)
  ultimately show ?thesis by simp
qed

lemma borda_single:
  fixes r :: "'a list"
  assumes srt: "sorts_ascending argsort"
    and dist: "distinct r" and it_docs: "iterates_on (get_unique_doc_ids [r]) iter_docs"
    and it_ids: "iterates_on {1..card (get_unique_doc_ids [r])} iter_ids"
  shows "\<exists>out. BordaCount_rank_by_id argsort iter_docs iter_ids [r] = Inr out \<and> map snd out = r"
proof -
  let ?U = "get_unique_doc_ids [r]"
  let ?order = "iter_docs ?U"
  let ?n = "card ?U"
  let ?ks = "map (position ?order) r"
  have U: "?U = set r" by (rule unique_doc_ids_single)
  have ord: "distinct ?order" "set ?order = set r"
    using iterates_onD [OF it_docs, of ?U] U by auto
  have len: "length ?order = ?n" using ord U by (metis distinct_card)
  note ix = ranking_indices [OF ord(1) dist ord(2) [symmetric]]
  have lr: "length r = ?n" using ix(4) len by simp
  have "set (map (doc_number ?order) r) = {1..length ?order}"
    using doc_number_image [OF ord(1)] ord(2) by simp
  then have rows: "borda_rows iter_docs iter_ids [r] = [map (doc_number ?order) r]"
    using iterates_on_empty [OF it_ids] by (simp add: borda_rows_def Let_def)
  let ?data = "borda_totals ?n [map (doc_number ?order) r]"
  have data: "?data = map (\<lambda>k. int ?n - (int (position r (?order ! k)) + 1)) [0..<?n]"
    unfolding borda_totals_def
    by (rule map_cong [OF refl])
       (use single_row_position [OF ord(1) ord(2) [symmetric]] len in simp)
  have ld: "length ?data = ?n" by (simp add: borda_totals_def)
  have ksr: "\<And>p. p < ?n \<Longrightarrow> ?ks ! p < ?n"
  proof -
    fix p assume "p < ?n"
    then have "r ! p \<in> set ?order" using ord(2) lr by (metis nth_mem)
    then show "?ks ! p < ?n" using \<open>p < ?n\<close> lr len position_less [of "r ! p" ?order] by simp
  qed
  have along: "\<And>p. p < ?n \<Longrightarrow> ?data ! (?ks ! p) = int ?n - (int p + 1)"
  proof -
    fix p assume p: "p < ?n"
    have "position r (?order ! (?ks ! p)) = p" using ix(3) p lr by simp
    then show "?data ! (?ks ! p) = int ?n - (int p + 1)"
      unfolding data using ksr [OF p] by simp
  qed
  have "map ((!) ?data) ?ks = map (\<lambda>p. int ?n - (int p + 1)) [0..<?n]"
    by (rule nth_equalityI) (use lr along in simp_all)
  then have "sorted_wrt (<) (rev (map ((!) ?data) ?ks))"
    using strictly_decreasing_sorted [of ?n "\<lambda>p. int ?n - (int p + 1)"] by simp
  then have so: "sorted (map ((!) ?data) (rev ?ks))" "distinct (map ((!) ?data) (rev ?ks))"
    by (simp_all add: strict_sorted_iff rev_map)
  have ms: "mset [0..<length ?data] = mset (rev ?ks)"
    using ix(2) ld len by simp
  have arg: "argsort ?data = rev ?ks"
    using srt so ms by (rule argsort_unique)
  have "BordaCount_rank_by_id argsort iter_docs iter_ids [r]
          = Inr (map (\<lambda>k. (real_of_int (?data ! k), ?order ! k)) ?ks)"
    using BordaCount_rank_by_id_eq [OF srt _ _ it_docs it_ids] dist arg rows by simp
  moreover have "map snd (map (\<lambda>k. (real_of_int (?data ! k), ?order ! k)) ?ks) = r"
    using ix(1) by (simp add: comp_def)
  ultimately show ?thesis by blast
qed

subsection \<open>A single ranking: the transition matrix\<close>

lemma fold_if_eq:
  "distinct js \<Longrightarrow>
     fold (\<lambda>j p. if i = j then G j p else p) js p = (if i \<in> set js then G i p else p)"
  by (induction js arbitrary: p) auto

lemma normalized_as_fold:
  "get_normalized_transition_matrix p_matrix items
     = fold (fix_diagonal items) [0..<items] (map (map (\<lambda>x. x / real items)) p_matrix)"
proof -
  have "(\<lambda>i p. fold (\<lambda>j p.
           if i = j
           then p[i := (p ! i)[j := 1 - (sum_list (drop (i + 1) (take items (p ! i)))
                                          + sum_list (take j (p ! i)))]]
           else p) [0..<items] p)
      = (\<lambda>i p. if i \<in> set [0..<items] then fix_diagonal items i p else p)"
    by (intro ext) (simp add: fold_if_eq fix_diagonal_def del: set_upt)
  then have "get_normalized_transition_matrix p_matrix items
      = fold (\<lambda>i p. if i \<in> set [0..<items] then fix_diagonal items i p else p) [0..<items]
          (map (map (\<lambda>x. x / real items)) p_matrix)"
    by (simp add: get_normalized_transition_matrix_def)
  also have "\<dots> = fold (fix_diagonal items) [0..<items] (map (map (\<lambda>x. x / real items)) p_matrix)"
    by (rule fold_cong) auto
  finally show ?thesis .
qed

lemma fold_fix_diagonal:
  "distinct ks \<Longrightarrow> set ks \<subseteq> {0..<length q} \<Longrightarrow>
     length (fold (fix_diagonal n) ks q) = length q
     \<and> (\<forall>k<length q. fold (fix_diagonal n) ks q ! k
            = (if k \<in> set ks then fix_diagonal n k q ! k else q ! k))"
proof (induction ks arbitrary: q)
  case Nil
  then show ?case by simp
next
  case (Cons i ks)
  let ?q1 = "fix_diagonal n i q"
  have l1: "length ?q1 = length q" by (simp add: fix_diagonal_def)
  have i: "i < length q" "i \<notin> set ks" using Cons.prems by auto
  have ih: "length (fold (fix_diagonal n) ks ?q1) = length ?q1
     \<and> (\<forall>k<length ?q1. fold (fix_diagonal n) ks ?q1 ! k
            = (if k \<in> set ks then fix_diagonal n k ?q1 ! k else ?q1 ! k))"
    using Cons.IH [of ?q1] Cons.prems l1 by auto
  have other: "\<And>k. k \<noteq> i \<Longrightarrow> k < length q \<Longrightarrow> fix_diagonal n k ?q1 ! k = fix_diagonal n k q ! k"
    by (simp add: fix_diagonal_def)
  show ?case
  proof (intro conjI allI impI)
    show "length (fold (fix_diagonal n) (i # ks) q) = length q" using ih l1 by simp
  next
    fix k assume k: "k < length q"
    show "fold (fix_diagonal n) (i # ks) q ! k
            = (if k \<in> set (i # ks) then fix_diagonal n k q ! k else q ! k)"
    proof (cases "k = i")
      case True
      then show ?thesis using ih l1 k i by simp
    next
      case False
      then have "?q1 ! k = q ! k" by (simp add: fix_diagonal_def)
      then show ?thesis using ih l1 k False other [OF False k] by simp
    qed
  qed
qed

lemma sum_list_without:
  fixes row :: "real list"
  assumes "i < length row"
  shows "sum_list (drop (i + 1) row) + sum_list (take i row) = sum_list row - row ! i"
proof -
  have "row = take i row @ row ! i # drop (Suc i) row"
    using assms by (rule id_take_nth_drop)
  then have "sum_list row = sum_list (take i row) + row ! i + sum_list (drop (Suc i) row)"
    by (metis sum_list.Cons sum_list.append add.assoc)
  then show ?thesis by simp
qed

lemma normalized_entry:
  assumes "length p = n" and "\<forall>row \<in> set p. length row = n" and "i < n" and "j < n"
  shows "get_normalized_transition_matrix p n ! i ! j =
           (if i = j then 1 - ((\<Sum>k = 0..<n. p ! i ! k / real n) - p ! i ! i / real n)
            else p ! i ! j / real n)"
proof -
  let ?q = "map (map (\<lambda>x. x / real n)) p"
  have lq: "length ?q = n" using assms(1) by simp
  have row: "?q ! i = map (\<lambda>x. x / real n) (p ! i)" using assms(1,3) by simp
  have lrow: "length (p ! i) = n" using assms(1,2,3) by (metis nth_mem)
  have "get_normalized_transition_matrix p n ! i = fix_diagonal n i ?q ! i"
    using fold_fix_diagonal [of "[0..<n]" ?q n] lq assms(3)
    by (simp add: normalized_as_fold)
  also have "\<dots> = (?q ! i)[i := 1 - (sum_list (drop (i + 1) (take n (?q ! i)))
                               + sum_list (take i (?q ! i)))]"
    using lq assms(3) by (simp add: fix_diagonal_def)
  also have "take n (?q ! i) = ?q ! i" using row lrow by simp
  also have "sum_list (drop (i + 1) (?q ! i)) + sum_list (take i (?q ! i))
      = sum_list (?q ! i) - ?q ! i ! i"
    using sum_list_without [of i "?q ! i"] row lrow assms(3) by simp
  also have "sum_list (?q ! i) = (\<Sum>k = 0..<n. p ! i ! k / real n)"
    unfolding row using lrow by (simp add: sum_list_sum_nth)
  finally have "get_normalized_transition_matrix p n ! i
      = (?q ! i)[i := 1 - ((\<Sum>k = 0..<n. p ! i ! k / real n) - ?q ! i ! i)]" .
  then show ?thesis
    using row lrow assms(3,4) by (auto simp: nth_list_update)
qed

lemma partial_single_entry:
  assumes "i < n" "j < n"
  shows "get_partial_transition_matrix (single_frame n s) MC4 n 1 ! i ! j
           = (if s i < s j then 0 else if i = j then - 1 else 1)"
  using assms
  by (simp add: get_partial_transition_matrix_def single_frame_def Let_def)

lemma partial_single_shape:
  "length (get_partial_transition_matrix df alg n c) = n"
  "\<forall>row \<in> set (get_partial_transition_matrix df alg n c). length row = n"
  by (auto simp: get_partial_transition_matrix_def)

lemma transition_single_entry:
  assumes "i < n" "j < n"
  shows "mc4_transition (single_frame n s) ! i ! j
           = mc4_chain n s i j * (85 / 100) + (15 / 100) / real n"
proof -
  define p where "p = get_partial_transition_matrix (single_frame n s) MC4 n 1"
  define m where "m = get_normalized_transition_matrix p n"
  have shape: "length p = n" "\<forall>row \<in> set p. length row = n"
    unfolding p_def by (rule partial_single_shape)+
  have off: "\<And>k. k < n \<Longrightarrow> k \<noteq> i \<Longrightarrow> p ! i ! k = mc4_weight s i k"
  proof -
    fix k assume "k < n" "k \<noteq> i"
    with partial_single_entry [OF assms(1) \<open>k < n\<close>, of s]
    show "p ! i ! k = mc4_weight s i k" by (simp add: mc4_weight_def p_def)
  qed
  have "(\<Sum>k = 0..<n. p ! i ! k / real n) - p ! i ! i / real n
      = (\<Sum>k \<in> {0..<n} - {i}. p ! i ! k / real n)"
    using assms(1) by (simp add: sum_diff1)
  also have "\<dots> = (\<Sum>k \<in> {0..<n} - {i}. mc4_weight s i k / real n)"
    by (rule sum.cong) (use off in auto)
  also have "\<dots> = (\<Sum>k \<in> {0..<n} - {i}. mc4_weight s i k) / real n"
    by (simp add: sum_divide_distrib)
  finally have diag: "(\<Sum>k = 0..<n. p ! i ! k / real n) - p ! i ! i / real n
      = (\<Sum>k \<in> {0..<n} - {i}. mc4_weight s i k) / real n" .
  have entry: "m ! i ! j = (if i = j then 1 - ((\<Sum>k = 0..<n. p ! i ! k / real n) - p ! i ! i / real n)
            else p ! i ! j / real n)"
    unfolding m_def by (rule normalized_entry [OF shape assms])
  have mij: "m ! i ! j = mc4_chain n s i j"
  proof (cases "i = j")
    case True
    then show ?thesis unfolding entry diag by (simp add: mc4_chain_def)
  next
    case False
    then show ?thesis unfolding entry using off [OF assms(2)] by (simp add: mc4_chain_def)
  qed
  have fold: "length (fold (fix_diagonal n) [0..<n] (map (map (\<lambda>x. x / real n)) p)) = n
     \<and> fold (fix_diagonal n) [0..<n] (map (map (\<lambda>x. x / real n)) p) ! i
         = fix_diagonal n i (map (map (\<lambda>x. x / real n)) p) ! i"
    using fold_fix_diagonal [of "[0..<n]" "map (map (\<lambda>x. x / real n)) p" n] shape(1) assms(1)
    by simp
  have lm: "length m = n" using fold by (simp add: m_def normalized_as_fold)
  have "m ! i = fix_diagonal n i (map (map (\<lambda>x. x / real n)) p) ! i"
    using fold by (simp add: m_def normalized_as_fold)
  then have lrow: "length (m ! i) = n"
    using shape assms(1) by (simp add: fix_diagonal_def)
  have "mc4_transition (single_frame n s) = map (map (\<lambda>x. x * (1 - 15 / 100) + (15 / 100) / real n)) m"
    by (simp add: mc4_transition_def single_frame_def Let_def m_def p_def)
  then have "mc4_transition (single_frame n s) ! i ! j = m ! i ! j * (1 - 15 / 100) + (15 / 100) / real n"
    using lm lrow assms by simp
  then show ?thesis using mij by simp
qed

lemma dot_nth:
  "j < length v \<Longrightarrow> dot v m ! j = (\<Sum>i = 0..<length v. v ! i * m ! i ! j)"
  by (simp add: dot_def interv_sum_list_conv_sum_set_nat)

lemma weight_bounds: "0 \<le> mc4_weight s i j" "mc4_weight s i j \<le> 1"
  by (simp_all add: mc4_weight_def)

lemma weight_sum_le:
  assumes "i < n"
  shows "(\<Sum>k \<in> {0..<n} - {i}. mc4_weight s i k) \<le> real n - 1"
proof -
  have "(\<Sum>k \<in> {0..<n} - {i}. mc4_weight s i k) \<le> (\<Sum>k \<in> {0..<n} - {i}. 1)"
    by (rule sum_mono) (rule weight_bounds)
  also have "\<dots> = real (card ({0..<n} - {i}))" by simp
  also have "\<dots> = real n - 1" using assms by (simp add: of_nat_diff)
  finally show ?thesis .
qed

lemma chain_nonneg:
  assumes "i < n" "j < n"
  shows "0 \<le> mc4_chain n s i j"
proof (cases "i = j")
  case True
  have "(\<Sum>k \<in> {0..<n} - {i}. mc4_weight s i k) / real n \<le> (real n - 1) / real n"
    using weight_sum_le [OF assms(1), of s] assms(1) by (simp add: divide_right_mono)
  also have "\<dots> \<le> 1" using assms(1) by simp
  finally show ?thesis using True by (simp add: mc4_chain_def)
next
  case False
  then show ?thesis using weight_bounds(1) [of s i j] by (simp add: mc4_chain_def)
qed

subsection \<open>A single ranking: the power iteration\<close>

lemma separates_follows: "separates_ranking s n v \<Longrightarrow> follows_ranking s n v"
  by (auto simp: separates_ranking_def follows_ranking_def less_imp_le)

lemma weight_sum_gap:
  assumes "a < n" "b < n" "s a < s b"
  shows "(\<Sum>k \<in> {0..<n} - {a}. mc4_weight s a k) + 1 \<le> (\<Sum>k \<in> {0..<n} - {b}. mc4_weight s b k)"
proof -
  have ne: "a \<noteq> b" using assms(3) by auto
  have sets: "{0..<n} - {b} - {a} = {0..<n} - {a} - {b}" by auto
  have "(\<Sum>k \<in> {0..<n} - {a}. mc4_weight s a k)
      = mc4_weight s a b + (\<Sum>k \<in> {0..<n} - {a} - {b}. mc4_weight s a k)"
    using assms(2) ne by (intro sum.remove) auto
  moreover have "(\<Sum>k \<in> {0..<n} - {b}. mc4_weight s b k)
      = mc4_weight s b a + (\<Sum>k \<in> {0..<n} - {a} - {b}. mc4_weight s b k)"
    using assms(1) ne sum.remove [of "{0..<n} - {b}" a "mc4_weight s b"] by (simp add: sets)
  moreover have "(\<Sum>k \<in> {0..<n} - {a} - {b}. mc4_weight s a k)
      \<le> (\<Sum>k \<in> {0..<n} - {a} - {b}. mc4_weight s b k)"
    by (rule sum_mono) (use assms(3) in \<open>auto simp: mc4_weight_def\<close>)
  moreover have "mc4_weight s a b = 0" "mc4_weight s b a = 1"
    using assms(3) by (simp_all add: mc4_weight_def)
  ultimately show ?thesis by simp
qed

lemma dot_step:
  assumes f: "follows_ranking s n v" and n: "0 < n"
  shows "separates_ranking s n (dot v (mc4_transition (single_frame n s)))"
proof -
  let ?T = "mc4_transition (single_frame n s)"
  have len: "length v = n" and pos: "\<And>i. i < n \<Longrightarrow> 0 < v ! i"
    and mono: "\<And>a b. a < n \<Longrightarrow> b < n \<Longrightarrow> s a < s b \<Longrightarrow> v ! b \<le> v ! a"
    using f by (auto simp: follows_ranking_def)
  have T: "\<And>i j. i < n \<Longrightarrow> j < n \<Longrightarrow>
      ?T ! i ! j = mc4_chain n s i j * (85 / 100) + (15 / 100) / real n"
    by (rule transition_single_entry)
  have Tpos: "\<And>i j. i < n \<Longrightarrow> j < n \<Longrightarrow> 0 < ?T ! i ! j"
  proof -
    fix i j assume ij: "i < n" "j < n"
    have "0 \<le> mc4_chain n s i j * (85 / 100)" using chain_nonneg [OF ij, of s] by simp
    moreover have "0 < (15 / 100) / real n" using n by simp
    ultimately show "0 < ?T ! i ! j" unfolding T [OF ij] by linarith
  qed
  have d: "\<And>j. j < n \<Longrightarrow> dot v ?T ! j = (\<Sum>i = 0..<n. v ! i * ?T ! i ! j)"
    using dot_nth [of _ v ?T] len by simp
  have positive: "\<forall>j<n. 0 < dot v ?T ! j"
  proof (intro allI impI)
    fix j assume j: "j < n"
    have "0 < (\<Sum>i = 0..<n. v ! i * ?T ! i ! j)"
      by (rule sum_pos) (use n j pos Tpos in auto)
    then show "0 < dot v ?T ! j" using d [OF j] by simp
  qed
  have strict: "\<forall>a<n. \<forall>b<n. s a < s b \<longrightarrow> dot v ?T ! b < dot v ?T ! a"
  proof (intro allI impI)
    fix a b assume a: "a < n" and b: "b < n" and ab: "s a < s b"
    have ne: "a \<noteq> b" using ab by auto
    let ?g = "\<lambda>i. v ! i * (mc4_chain n s i a - mc4_chain n s i b)"
    let ?Sa = "\<Sum>k \<in> {0..<n} - {a}. mc4_weight s a k"
    let ?Sb = "\<Sum>k \<in> {0..<n} - {b}. mc4_weight s b k"
    have diff: "dot v ?T ! a - dot v ?T ! b = (85 / 100) * (\<Sum>i = 0..<n. ?g i)"
    proof -
      have "dot v ?T ! a - dot v ?T ! b = (\<Sum>i = 0..<n. v ! i * ?T ! i ! a - v ! i * ?T ! i ! b)"
        using d [OF a] d [OF b] by (simp add: sum_subtractf)
      also have "\<dots> = (\<Sum>i = 0..<n. (85 / 100) * ?g i)"
        by (rule sum.cong) (use T a b in \<open>auto simp: algebra_simps\<close>)
      finally show ?thesis by (simp add: sum_distrib_left)
    qed
    have split: "(\<Sum>i = 0..<n. ?g i) = ?g a + (?g b + (\<Sum>i \<in> {0..<n} - {a} - {b}. ?g i))"
    proof -
      have "(\<Sum>i = 0..<n. ?g i) = ?g a + (\<Sum>i \<in> {0..<n} - {a}. ?g i)"
        using a by (intro sum.remove) auto
      moreover have "(\<Sum>i \<in> {0..<n} - {a}. ?g i) = ?g b + (\<Sum>i \<in> {0..<n} - {a} - {b}. ?g i)"
        using b ne by (intro sum.remove) auto
      ultimately show ?thesis by simp
    qed
    have rest: "0 \<le> (\<Sum>i \<in> {0..<n} - {a} - {b}. ?g i)"
    proof (rule sum_nonneg)
      fix i assume i: "i \<in> {0..<n} - {a} - {b}"
      then have "mc4_chain n s i b \<le> mc4_chain n s i a"
        using ab n by (auto simp: mc4_chain_def mc4_weight_def divide_right_mono)
      moreover have "0 < v ! i" using i pos by auto
      ultimately show "0 \<le> ?g i" by simp
    qed
    have ga: "?g a = v ! a * (1 - ?Sa / real n)"
      using ab ne by (simp add: mc4_chain_def mc4_weight_def)
    have gb: "?g b = v ! b * (1 / real n - 1 + ?Sb / real n)"
      using ab ne by (simp add: mc4_chain_def mc4_weight_def)
    have gap: "?Sa + 1 \<le> ?Sb" by (rule weight_sum_gap [OF a b ab])
    have top: "?Sb \<le> real n - 1" by (rule weight_sum_le [OF b])
    have rn: "0 < real n" using n by simp
    define x where "x = 1 - ?Sa / real n"
    define y where "y = 1 / real n - 1 + ?Sb / real n"
    have "?Sa / real n \<le> (real n - 2) / real n"
      using gap top rn by (intro divide_right_mono) auto
    also have "\<dots> = 1 - 2 / real n" using rn by (simp add: field_simps)
    finally have x2: "2 / real n \<le> x" by (simp add: x_def)
    have "(?Sa + 1) / real n \<le> ?Sb / real n" using gap rn by (intro divide_right_mono) auto
    then have yx: "2 / real n - x \<le> y" by (simp add: x_def y_def add_divide_distrib)
    have x0: "0 \<le> x" using x2 rn by (meson divide_nonneg_pos order_trans zero_le_numeral less_imp_le)
    have "v ! b * x \<le> v ! a * x" using mono [OF a b ab] x0 by (rule mult_right_mono)
    moreover have "v ! b * (2 / real n - x) \<le> v ! b * y"
      using yx pos [OF b] by (intro mult_left_mono) auto
    moreover have "0 < v ! b * (2 / real n)" using pos [OF b] rn by simp
    ultimately have "0 < v ! a * x + v ! b * y" by (simp add: algebra_simps)
    then have "0 < ?g a + ?g b" unfolding ga gb x_def y_def .
    then have "0 < (\<Sum>i = 0..<n. ?g i)" using split rest by linarith
    then have "0 < dot v ?T ! a - dot v ?T ! b" unfolding diff by simp
    then show "dot v ?T ! b < dot v ?T ! a" by simp
  qed
  show ?thesis
    unfolding separates_ranking_def using positive strict len by (simp add: dot_length)
qed

lemma stationary_loop_separates:
  assumes "0 < n"
  shows "separates_ranking s n st \<Longrightarrow>
     separates_ranking s n (stationary_loop st (mc4_transition (single_frame n s)) p it c)"
proof (induction st "mc4_transition (single_frame n s)" p it c rule: stationary_loop.induct)
  case (1 st p it c)
  have next_ok: "separates_ranking s n (dot st (mc4_transition (single_frame n s)))"
    using dot_step [OF separates_follows [OF "1.prems"] assms] .
  show ?case
    using "1.hyps" "1.prems" next_ok
    by (subst stationary_loop.simps) (auto simp: Let_def)
qed

lemma first_step_error:
  assumes n: "2 \<le> n" and inj: "inj_on s {0..<n}" and j0: "j0 < n" "s j0 = 0"
  shows "dot (replicate n (1 / real n)) (mc4_transition (single_frame n s)) ! j0 - 1 / real n
           = (85 / 100) * (real n - 1) / (real n * real n)"
proof -
  let ?T = "mc4_transition (single_frame n s)"
  have rn: "0 < real n" using n by simp
  have others: "\<And>k. k \<in> {0..<n} - {j0} \<Longrightarrow> 0 < s k"
  proof -
    fix k assume k: "k \<in> {0..<n} - {j0}"
    then have "k \<in> {0..<n}" "j0 \<in> {0..<n}" "k \<noteq> j0" using j0(1) by auto
    then have "s k \<noteq> s j0" using inj by (meson inj_onD)
    then show "0 < s k" using j0(2) by simp
  qed
  have "(\<Sum>k \<in> {0..<n} - {j0}. mc4_weight s j0 k) = (\<Sum>k \<in> {0..<n} - {j0}. 0)"
    by (rule sum.cong) (use others j0(2) in \<open>auto simp: mc4_weight_def\<close>)
  then have diag: "mc4_chain n s j0 j0 = 1" by (simp add: mc4_chain_def)
  have "(\<Sum>i \<in> {0..<n} - {j0}. mc4_chain n s i j0) = (\<Sum>i \<in> {0..<n} - {j0}. 1 / real n)"
    by (rule sum.cong) (use j0(2) in \<open>auto simp: mc4_chain_def mc4_weight_def\<close>)
  also have "\<dots> = (real n - 1) / real n"
    using j0(1) by (simp add: of_nat_diff)
  finally have off: "(\<Sum>i \<in> {0..<n} - {j0}. mc4_chain n s i j0) = (real n - 1) / real n" .
  have "(\<Sum>i = 0..<n. mc4_chain n s i j0)
      = mc4_chain n s j0 j0 + (\<Sum>i \<in> {0..<n} - {j0}. mc4_chain n s i j0)"
    using j0(1) by (intro sum.remove) auto
  then have col: "(\<Sum>i = 0..<n. mc4_chain n s i j0) = 1 + (real n - 1) / real n"
    using diag off by simp
  have "dot (replicate n (1 / real n)) ?T ! j0
      = (\<Sum>i = 0..<n. replicate n (1 / real n) ! i * ?T ! i ! j0)"
    using dot_nth [of j0 "replicate n (1 / real n)" ?T] j0(1) by simp
  also have "\<dots> = (\<Sum>i = 0..<n. (1 / real n) * (mc4_chain n s i j0 * (85 / 100) + (15 / 100) / real n))"
    by (rule sum.cong) (simp_all add: transition_single_entry j0(1))
  also have "\<dots> = (1 / real n) * (\<Sum>i = 0..<n. mc4_chain n s i j0 * (85 / 100) + (15 / 100) / real n)"
    by (simp only: sum_distrib_left)
  also have "(\<Sum>i = 0..<n. mc4_chain n s i j0 * (85 / 100) + (15 / 100) / real n)
      = (\<Sum>i = 0..<n. mc4_chain n s i j0) * (85 / 100) + real n * ((15 / 100) / real n)"
  proof -
    have "(\<Sum>i = 0..<n. mc4_chain n s i j0 * (85 / 100) + (15 / 100) / real n)
        = (\<Sum>i = 0..<n. mc4_chain n s i j0 * (85 / 100)) + (\<Sum>i = 0..<n. (15 / 100) / real n)"
      by (rule sum.distrib)
    moreover have "(\<Sum>i = 0..<n. mc4_chain n s i j0 * (85 / 100))
        = (\<Sum>i = 0..<n. mc4_chain n s i j0) * (85 / 100)"
      by (rule sum_distrib_right [symmetric])
    moreover have "(\<Sum>i = 0..<n. (15 / 100) / real n) = real n * ((15 / 100) / real n)"
      by (simp only: sum_constant card_atLeastLessThan diff_zero)
    ultimately show ?thesis by (simp only:)
  qed
  also have "real n * ((15 / 100) / real n) = 15 / 100" using rn by simp
  finally have val: "dot (replicate n (1 / real n)) ?T ! j0
      = (1 / real n) * ((1 + (real n - 1) / real n) * (85 / 100) + 15 / 100)"
    unfolding col .
  have "(1 / real n) * ((1 + (real n - 1) / real n) * (85 / 100) + 15 / 100) - 1 / real n
      = (85 / 100) * (real n - 1) / (real n * real n)"
    using rn by (simp add: field_simps)
  then show ?thesis unfolding val .
qed

lemma size_bound:
  fixes n :: nat
  assumes "2 \<le> n" "n \<le> 8499998"
  shows "n * n \<le> 8500000 * (n - 1)"
proof -
  have "0 \<le> (int n - 2) * (8499998 - int n)"
    using assms by (intro mult_nonneg_nonneg) auto
  then have "int n * int n \<le> 8500000 * int n - 16999996"
    by (simp add: algebra_simps)
  then have "int n * int n \<le> 8500000 * (int n - 1)" by simp
  moreover have "int (n - 1) = int n - 1" using assms(1) by simp
  ultimately have "int (n * n) \<le> int (8500000 * (n - 1))" by simp
  then show ?thesis by (simp only: of_nat_le_iff)
qed

lemma distribution_separates:
  assumes n: "2 \<le> n" "n \<le> 8499998" and inj: "inj_on s {0..<n}" and j0: "j0 < n" "s j0 = 0"
  shows "separates_ranking s n (mc4_distribution (single_frame n s))"
proof -
  let ?T = "mc4_transition (single_frame n s)"
  let ?v = "replicate n (1 / real n)"
  have rn: "0 < real n" using n by simp
  have n0: "0 < n" using n by simp
  have err: "dot ?v ?T ! j0 - ?v ! j0 = (85 / 100) * (real n - 1) / (real n * real n)"
    using first_step_error [OF n(1) inj j0] j0(1) by simp
  have "real (n * n) \<le> real (8500000 * (n - 1))"
    using size_bound [OF n] by (rule of_nat_mono)
  then have "real n * real n \<le> 8500000 * (real n - 1)"
    using n by (simp add: of_nat_diff)
  then have "1 / 10 ^ 7 \<le> (85 / 100) * (real n - 1) / (real n * real n)"
    using rn by (simp add: field_simps)
  then have big: "\<not> \<bar>dot ?v ?T ! j0 - ?v ! j0\<bar> < 1 / 10 ^ 7"
    unfolding err by linarith
  have "\<not> list_all (\<lambda>e. \<bar>e\<bar> < 1 / 10 ^ 7) (map2 (\<lambda>x y. x - y) (dot ?v ?T) ?v)"
  proof
    assume "list_all (\<lambda>e. \<bar>e\<bar> < 1 / 10 ^ 7) (map2 (\<lambda>x y. x - y) (dot ?v ?T) ?v)"
    then have "\<bar>map2 (\<lambda>x y. x - y) (dot ?v ?T) ?v ! j0\<bar> < 1 / 10 ^ 7"
      using j0(1) by (simp add: list_all_length dot_length)
    then show False using big j0(1) by (simp add: dot_length)
  qed
  then have unfold: "stationary_loop ?v ?T (1 / 10 ^ 7) 200 1
      = stationary_loop (dot ?v ?T) ?T (1 / 10 ^ 7) 200 (1 + 1)"
    by (subst stationary_loop.simps) (simp add: Let_def)
  have "follows_ranking s n ?v" using rn by (simp add: follows_ranking_def)
  then have "separates_ranking s n (dot ?v ?T)" using n0 by (rule dot_step)
  then have "separates_ranking s n (stationary_loop (dot ?v ?T) ?T (1 / 10 ^ 7) 200 (1 + 1))"
    by (rule stationary_loop_separates [OF n0])
  then show ?thesis
    using unfold
    by (simp add: mc4_distribution_def get_stationary_distribution_matrix_def single_frame_def
          Let_def)
qed

lemma dense_ranks_decreasing:
  assumes "a < length v" "b < length v" "v ! b < v ! a"
  shows "dense_ranks v ! a < dense_ranks v ! b"
proof -
  have sub: "{y \<in> set v. v ! a < y} \<subseteq> {y \<in> set v. v ! b < y}"
    using assms(3) by auto
  have inn: "v ! a \<in> {y \<in> set v. v ! b < y}" using assms(1,3) by simp
  have out: "v ! a \<notin> {y \<in> set v. v ! a < y}" by simp
  have "{y \<in> set v. v ! a < y} \<subset> {y \<in> set v. v ! b < y}"
    using sub inn out by blast
  then have "card {y \<in> set v. v ! a < y} < card {y \<in> set v. v ! b < y}"
    by (intro psubset_card_mono) auto
  then show ?thesis using assms(1,2) by (simp add: dense_ranks_def)
qed

subsection \<open>A single ranking is returned unchanged\<close>

lemma markov_single:
  fixes r :: "'a list"
  assumes ne: "r \<noteq> []" and dist: "distinct r" and small: "length r \<le> 8499998"
    and it: "iterates_on (get_unique_doc_ids [r]) iter_docs"
  shows "\<exists>out. MarkovChain_rank_by_id iter_docs [r] = Inr out \<and> map snd out = r"
proof -
  let ?U = "get_unique_doc_ids [r]"
  let ?order = "iter_docs ?U"
  let ?n = "card ?U"
  let ?ks = "map (position ?order) r"
  define s where "s = (\<lambda>k. position r (?order ! k))"
  have U: "?U = set r" by (rule unique_doc_ids_single)
  have ord: "distinct ?order" "set ?order = set r"
    using iterates_onD [OF it, of ?U] U by auto
  have len: "length ?order = ?n" using ord U by (metis distinct_card)
  note ix = ranking_indices [OF ord(1) dist ord(2) [symmetric]]
  have lr: "length r = ?n" using ix(4) len by simp
  have n1: "1 \<le> ?n" using ne lr by (cases r) auto
  have Une: "?U \<noteq> {}" using ne U by simp
  have "iter_docs (?U - set r) = []"
    using iterates_on_empty [OF it] U by simp
  then have mrows: "mc_rows iter_docs [r] = [map (doc_number ?order) r]"
    by (simp add: mc_rows_def Let_def)
  have "position_matrix ?n [map (doc_number ?order) r]
      = map (\<lambda>k. [position (map (doc_number ?order) r) (Suc k) + 1]) [0..<?n]"
    by (simp add: position_matrix_def)
  also have "\<dots> = map (\<lambda>k. [s k + 1]) [0..<?n]"
    by (rule map_cong [OF refl])
       (use single_row_position [OF ord(1) ord(2) [symmetric]] len in \<open>simp add: s_def\<close>)
  finally have df: "\<lparr>frame_rows = position_matrix ?n (mc_rows iter_docs [r]),
                     frame_columns = length [r]\<rparr> = single_frame ?n s"
    by (simp add: mrows single_frame_def)
  define pi where "pi = mc4_distribution (single_frame ?n s)"
  define g where "g = (\<lambda>k. real_of_int (int ?n - int (dense_ranks pi ! k)))"
  have out: "MarkovChain_rank_by_id iter_docs [r]
      = Inr (sort_key (\<lambda>x. - fst x) (map (\<lambda>k. (g k, ?order ! k)) [0..<?n]))"
  proof -
    have h1: "[r] \<noteq> []" by simp
    have h2: "\<forall>x \<in> set [r]. distinct x" using dist by simp
    show ?thesis
      unfolding g_def pi_def df [symmetric]
      using MarkovChain_rank_by_id_eq [OF h1 h2 it] Une by (simp only: if_False)
  qed
  have lpi: "length pi = ?n"
    by (simp add: pi_def mc4_distribution_length single_frame_def)
  have ksr: "\<And>p. p < ?n \<Longrightarrow> ?ks ! p < ?n"
  proof -
    fix p assume p: "p < ?n"
    then have "r ! p \<in> set ?order" using ord(2) lr by (metis nth_mem)
    then show "?ks ! p < ?n" using p lr len position_less [of "r ! p" ?order] by simp
  qed
  have sks: "\<And>p. p < ?n \<Longrightarrow> s (?ks ! p) = p"
    using ix(3) lr by (simp add: s_def)
  have "map snd (sort_key (\<lambda>x. - fst x) (map (\<lambda>k. (g k, ?order ! k)) [0..<?n])) = r"
  proof (cases "?n = 1")
    case True
    then obtain x where r: "r = [x]" using lr by (cases r) auto
    then have "?order = [x]" using ord len True by (cases ?order) auto
    then show ?thesis using True r by simp
  next
    case False
    then have n2: "2 \<le> ?n" using n1 by simp
    have inj: "inj_on s {0..<?n}"
    proof (rule inj_onI)
      fix k k' assume k: "k \<in> {0..<?n}" "k' \<in> {0..<?n}" and e: "s k = s k'"
      have "?order ! k \<in> set r" "?order ! k' \<in> set r"
        using k len ord(2) by (metis atLeastLessThan_iff nth_mem)+
      then have "?order ! k = ?order ! k'" using e by (auto simp: s_def dest: position_inj)
      then show "k = k'" using ord(1) k len by (simp add: nth_eq_iff_index_eq)
    qed
    have j0: "?ks ! 0 < ?n" "s (?ks ! 0) = 0" using ksr [of 0] sks [of 0] n2 by simp_all
    have sep: "separates_ranking s ?n pi"
      unfolding pi_def using n2 small lr inj j0 by (intro distribution_separates) simp_all
    have dec: "\<And>p q. p < q \<Longrightarrow> q < ?n \<Longrightarrow> dense_ranks pi ! (?ks ! p) < dense_ranks pi ! (?ks ! q)"
    proof -
      fix p q assume pq: "p < q" "q < ?n"
      then have p: "p < ?n" by simp
      have "pi ! (?ks ! q) < pi ! (?ks ! p)"
        using sep ksr [OF p] ksr [OF pq(2)] sks [OF p] sks [OF pq(2)] pq(1)
        by (simp add: separates_ranking_def)
      then show "dense_ranks pi ! (?ks ! p) < dense_ranks pi ! (?ks ! q)"
        using ksr [OF p] ksr [OF pq(2)] lpi by (intro dense_ranks_decreasing) simp_all
    qed
    let ?ys = "map (\<lambda>k. (g k, ?order ! k)) ?ks"
    have "sorted_wrt (<) (map (\<lambda>x. - fst x) ?ys)"
      unfolding sorted_wrt_iff_nth_less using dec lr by (simp add: g_def)
    then have so: "sorted (map (\<lambda>x. - fst x) ?ys)" "distinct (map (\<lambda>x. - fst x) ?ys)"
      by (simp_all add: strict_sorted_iff)
    have "mset ?ks = mset [0..<?n]" using ix(2) len by simp
    then have ms: "mset (map (\<lambda>k. (g k, ?order ! k)) [0..<?n]) = mset ?ys"
      by (metis mset_map)
    have "sort_key (\<lambda>x. - fst x) (map (\<lambda>k. (g k, ?order ! k)) [0..<?n]) = ?ys"
      using so ms by (rule sort_key_unique)
    then show ?thesis using ix(1) by (simp add: comp_def)
  qed
  with out show ?thesis by blast
qed

text \<open>
  A single ranking that is not empty. For every duplicate-free ranking \<open>r\<close>,
  Borda count on \<open>[r]\<close> returns the documents in the order of \<open>r\<close>,
  whatever sort is used: the totals of a single ranking are pairwise different.
  For the Markov chain the same is shown of the chain computed in exact
  arithmetic, when \<open>r\<close> is not empty and has at most 8499998 documents (up to
  that size the first step of the power iteration moves the uniform
  distribution by at least the precision \<open>1e-7\<close>). The code computes in
  \<^verbatim>\<open>float64\<close>; the bound belongs to the exact chain and says nothing about the
  rounding of the code.
\<close>

lemma single_ranking_unchanged:
  fixes r :: "'a list"
  assumes "sorts_ascending argsort" and "distinct r"
    and "iterates_on (get_unique_doc_ids [r]) iter_docs"
    and "iterates_on {1..card (get_unique_doc_ids [r])} iter_ids"
  shows "(case BordaCount_rank_by_id argsort iter_docs iter_ids [r] of
            Inl e \<Rightarrow> False
          | Inr out \<Rightarrow> map snd out = r)
       \<and> (r \<noteq> [] \<and> length r \<le> 8499998 \<longrightarrow>
            (case MarkovChain_rank_by_id iter_docs [r] of
               Inl e \<Rightarrow> False
             | Inr out \<Rightarrow> map snd out = r))"
proof (intro conjI impI)
  from borda_single [OF assms] obtain out where
    "BordaCount_rank_by_id argsort iter_docs iter_ids [r] = Inr out" "map snd out = r" by blast
  then show "case BordaCount_rank_by_id argsort iter_docs iter_ids [r] of
            Inl e \<Rightarrow> False
          | Inr out \<Rightarrow> map snd out = r" by simp
next
  assume a: "r \<noteq> [] \<and> length r \<le> 8499998"
  then have "r \<noteq> []" "length r \<le> 8499998" by auto
  from markov_single [OF this(1) assms(2) this(2) assms(3)] obtain out where
    "MarkovChain_rank_by_id iter_docs [r] = Inr out" "map snd out = r" by blast
  then show "case MarkovChain_rank_by_id iter_docs [r] of
               Inl e \<Rightarrow> False
             | Inr out \<Rightarrow> map snd out = r" by simp
qed

text \<open>
  The ranking \<open>B, A, C\<close>, the universe being enumerated as \<open>A, B, C\<close>.
\<close>

lemma single_ranking_unchanged_example:
  "(case BordaCount_rank_by_id argsort_stable (listing [''A'', ''B'', ''C'']) (listing [1, 2, 3])
              [[''B'', ''A'', ''C'']] of
         Inl e \<Rightarrow> False
       | Inr out \<Rightarrow> map snd out = [''B'', ''A'', ''C''])
   \<and> (case MarkovChain_rank_by_id (listing [''A'', ''B'', ''C'']) [[''B'', ''A'', ''C'']] of
         Inl e \<Rightarrow> False
       | Inr out \<Rightarrow> map snd out = [''B'', ''A'', ''C''])"
proof -
  have U: "get_unique_doc_ids [[''B'', ''A'', ''C'']] = set [''A'', ''B'', ''C'']"
    by (auto simp: get_unique_doc_ids_eq)
  have c: "card (set [''A'', ''B'', ''C'']) = 3" by simp
  have h1: "distinct [''B'', ''A'', ''C'']" by simp
  have h2: "iterates_on (get_unique_doc_ids [[''B'', ''A'', ''C'']]) (listing [''A'', ''B'', ''C''])"
    unfolding U by (rule iterates_on_listing) simp
  have "{1..3::nat} = set [1, 2, 3]" by auto
  then have h3: "iterates_on {1..card (get_unique_doc_ids [[''B'', ''A'', ''C'']])}
                   (listing [1, 2, 3::nat])"
    unfolding U c using iterates_on_listing [of "[1, 2, 3::nat]"] by simp
  have h4: "[''B'', ''A'', ''C''] \<noteq> [] \<and> length [''B'', ''A'', ''C''] \<le> 8499998" by simp
  from single_ranking_unchanged [OF sorts_ascending_stable h1 h2 h3] h4 show ?thesis by blast
qed

text \<open>
  Claim C6 (aggregating the one-element list \<open>[r]\<close> returns the order of
  \<open>r\<close>, with either strategy). For the empty ranking \<open>r\<close> the order of
  \<open>r\<close> is the empty fused ranking, and \<^verbatim>\<open>BordaCount.rank_by_id\<close> returns it;
  \<^verbatim>\<open>MarkovChain.rank_by_id\<close> does not return: the universe has no document and
  \<^verbatim>\<open>get_ergodic_transition_matrix\<close> divides \<^verbatim>\<open>erg_number\<close> by \<^verbatim>\<open>items = 0\<close>,
  which raises \<^verbatim>\<open>ZeroDivisionError\<close>.
\<close>

theorem single_empty_ranking_raises:
  "BordaCount_rank_by_id argsort_stable (listing ([]::string list)) (listing []) [[]] = Inr []
   \<and> MarkovChain_rank_by_id (listing ([]::string list)) [[]] = Inl ZeroDivisionError"
proof -
  have U: "get_unique_doc_ids [[]::string list] = {}" by (simp add: get_unique_doc_ids_eq)
  have h1: "[[]::string list] \<noteq> []" by simp
  have h2: "\<forall>r \<in> set [[]::string list]. distinct r" by simp
  have it: "iterates_on (get_unique_doc_ids [[]::string list]) (listing [])"
    unfolding U by (simp add: iterates_on_def listing_def)
  have it2: "iterates_on {1..card (get_unique_doc_ids [[]::string list])} (listing ([]::nat list))"
    unfolding U by (simp add: iterates_on_def listing_def)
  have b: "BordaCount_rank_by_id argsort_stable (listing ([]::string list)) (listing []) [[]] = Inr []"
    unfolding BordaCount_rank_by_id_eq [OF sorts_ascending_stable h1 h2 it it2]
    by (simp add: U borda_totals_def argsort_stable_def)
  have m: "MarkovChain_rank_by_id (listing ([]::string list)) [[]] = Inl ZeroDivisionError"
    unfolding MarkovChain_rank_by_id_eq [OF h1 h2 it] using U by simp
  from b m show ?thesis by blast
qed

end
